theory Spec2Isabelle
  imports Complex_Main "HOL-Library.Sublist" "HOL-Library.AList"
begin

section \<open>JavaScript values used by the analysis engine\<close>

text \<open>
  The engine is TypeScript; every number is a JavaScript number. The numbers a HAR
  document carries are finite, and sums, differences and comparisons of them are
  modelled exactly on \<^typ>\<open>rat\<close> (rounding of doubles and the sign of zero are not
  modelled). The three operations of the source that leave the finite range are
  modelled with their special results: \<^verbatim>\<open>Math.max()\<close> and \<^verbatim>\<open>Math.min()\<close> of no
  arguments, and division by zero.
\<close>

datatype jsnum = Finite rat | PosInfinity | NegInfinity | NaN

fun Math_max :: "rat list \<Rightarrow> jsnum" where
  "Math_max [] = NegInfinity"
| "Math_max (x # xs) = Finite (fold max xs x)"

fun Math_min :: "rat list \<Rightarrow> jsnum" where
  "Math_min [] = PosInfinity"
| "Math_min (x # xs) = Finite (fold min xs x)"

text \<open>\<^verbatim>\<open>a / b\<close> on finite operands.\<close>

definition js_div :: "rat \<Rightarrow> rat \<Rightarrow> jsnum" where
  "js_div a b =
     (if b = 0 then (if a = 0 then NaN else if 0 < a then PosInfinity else NegInfinity)
      else Finite (a / b))"

text \<open>\<^verbatim>\<open>x > c\<close> for a finite \<open>c\<close>: every comparison with NaN is false.\<close>

fun js_gt :: "jsnum \<Rightarrow> rat \<Rightarrow> bool" where
  "js_gt (Finite a) c = (c < a)"
| "js_gt PosInfinity c = True"
| "js_gt NegInfinity c = False"
| "js_gt NaN c = False"

text \<open>\<^verbatim>\<open>Math.round\<close>: the nearest integer, halves rounded up.\<close>

definition Math_round :: "rat \<Rightarrow> int" where
  "Math_round x = \<lfloor>x + 1 / 2\<rfloor>"

text \<open>
  An integer inside a template literal prints in decimal (the exponent form that
  JavaScript switches to from \<open>10^21\<close> on is not modelled).
\<close>

fun digits :: "nat \<Rightarrow> string" where
  "digits n =
     (if n < 10 then [char_of (48 + n)]
      else digits (n div 10) @ [char_of (48 + n mod 10)])"

definition numberToString :: "int \<Rightarrow> string" where
  "numberToString i = (if i < 0 then CHR ''-'' # digits (nat (- i)) else digits (nat i))"

text \<open>
  Strings are byte strings (UTF-8). \<^verbatim>\<open>toLowerCase\<close> is modelled on the ASCII letters;
  \<^verbatim>\<open>s.includes(sub)\<close> is \<^term>\<open>sublist sub s\<close> and \<^verbatim>\<open>s.endsWith(suf)\<close> is
  \<^term>\<open>suffix suf s\<close>.
\<close>

definition toLowerCase_char :: "char \<Rightarrow> char" where
  "toLowerCase_char c =
     (let n = (of_char c :: nat) in if 65 \<le> n \<and> n \<le> 90 then char_of (n + 32) else c)"

definition toLowerCase :: "string \<Rightarrow> string" where
  "toLowerCase s = map toLowerCase_char s"

definition includes' :: "string \<Rightarrow> string \<Rightarrow> bool" where
  "includes' s sub = sublist sub s"

definition endsWith :: "string \<Rightarrow> string \<Rightarrow> bool" where
  "endsWith s suf = suffix suf s"

section \<open>types/har: the HAR document and the analysis results\<close>

text \<open>
  Only the fields the engine reads are kept. An optional field (\<^verbatim>\<open>dns?: number\<close>) is an
  \<open>option\<close>; \<open>None\<close> stands for \<^verbatim>\<open>undefined\<close> and \<^verbatim>\<open>null\<close>. The code guards
  \<^verbatim>\<open>mimeType\<close>, a header's \<^verbatim>\<open>value\<close> and \<^verbatim>\<open>entries\<close> against being absent, so they
  are options too. Field names that several interfaces share carry a suffix.

  \<open>startedDateTime\<close> holds the value of \<^verbatim>\<open>new Date(entry.startedDateTime).getTime()\<close>,
  the epoch milliseconds of a valid timestamp (an invalid timestamp, whose time value is
  NaN, is outside the model).
\<close>

record HarHeader =
  name_h :: string
  value_h :: "string option"

record HarRequest =
  method_q :: string
  url_q :: string
  headers :: "HarHeader list"

record HarContent =
  size_c :: rat
  mimeType :: "string option"

record HarResponse =
  status_p :: int
  content :: HarContent
  bodySize :: rat

record HarTimings =
  blocked :: "rat option"
  dns :: "rat option"
  connect :: "rat option"
  ssl :: "rat option"
  send :: rat
  wait :: rat
  receive :: rat

record HarEntry =
  startedDateTime :: rat
  time_e :: rat
  request_e :: HarRequest
  response :: HarResponse
  timings_e :: HarTimings

record HarLog =
  entries :: "HarEntry list option"

record HarFile =
  log :: HarLog

datatype RequestType =
  Document | Xhr | Fetch | Script | Stylesheet | Image | Font | Media | Other

text \<open>The string each member of the union \<^verbatim>\<open>RequestType\<close> is in the source.\<close>

fun typeName :: "RequestType \<Rightarrow> string" where
  "typeName Document = ''document''"
| "typeName Xhr = ''xhr''"
| "typeName Fetch = ''fetch''"
| "typeName Script = ''script''"
| "typeName Stylesheet = ''stylesheet''"
| "typeName Image = ''image''"
| "typeName Font = ''font''"
| "typeName Media = ''media''"
| "typeName Other = ''other''"

datatype SeverityLevel = Normal | Warning | Critical

record ParsedRequest =
  id' :: string
  url :: string
  method_r :: string
  status :: int
  type' :: RequestType
  size' :: rat
  time :: rat
  timings :: HarTimings
  startTime :: rat
  severity :: SeverityLevel
  issues :: "string list"

datatype IssueType =
  slow_dns | slow_connect | slow_ssl | slow_ttfb | slow_download | large_payload | blocking

record AnalysisIssue =
  type_i :: IssueType
  severity_i :: SeverityLevel
  message :: string
  url_i :: string
  value_i :: rat
  threshold_i :: rat

record RegionData =
  name :: string
  fileName :: string
  requests :: "ParsedRequest list"
  totalTime :: jsnum
  totalSize :: rat
  requestCount :: nat
  slowRequests :: nat
  issues_r :: "AnalysisIssue list"

section \<open>lib/harParser\<close>

record Threshold =
  warning :: rat
  critical :: rat

definition THRESHOLDS :: "(string \<times> Threshold) list" where
  "THRESHOLDS =
     [(''api'', \<lparr>warning = 500, critical = 1000\<rparr>),
      (''script'', \<lparr>warning = 500, critical = 1500\<rparr>),
      (''stylesheet'', \<lparr>warning = 500, critical = 1500\<rparr>),
      (''image'', \<lparr>warning = 1000, critical = 3000\<rparr>),
      (''font'', \<lparr>warning = 500, critical = 1500\<rparr>),
      (''document'', \<lparr>warning = 1000, critical = 3000\<rparr>),
      (''other'', \<lparr>warning = 1000, critical = 3000\<rparr>),
      (''dns'', \<lparr>warning = 100, critical = 300\<rparr>),
      (''connect'', \<lparr>warning = 200, critical = 500\<rparr>),
      (''ssl'', \<lparr>warning = 200, critical = 500\<rparr>),
      (''ttfb'', \<lparr>warning = 500, critical = 1500\<rparr>),
      (''download'', \<lparr>warning = 1000, critical = 3000\<rparr>)]"

text \<open>\<^verbatim>\<open>THRESHOLDS.key\<close> for a key the table has.\<close>

definition THRESHOLDS_at :: "string \<Rightarrow> Threshold" where
  "THRESHOLDS_at key = the (map_of THRESHOLDS key)"

text \<open>
  \<^verbatim>\<open>headers.find(h => h.name.toLowerCase() === "x-requested-with")?.value?.toLowerCase()\<close>
  is \<open>None\<close> when no header matches or the header has no value.
\<close>

definition initiatorType :: "HarEntry \<Rightarrow> string option" where
  "initiatorType entry =
     (case find (\<lambda>h. toLowerCase (name_h h) = ''x-requested-with'') (headers (request_e entry)) of
        None \<Rightarrow> None
      | Some h \<Rightarrow> map_option toLowerCase (value_h h))"

text \<open>The two regular expressions are unanchored, so they test for a substring.\<close>

definition imageExtension :: "string \<Rightarrow> bool" where
  "imageExtension u =
     (includes' u ''.png'' \<or> includes' u ''.jpg'' \<or> includes' u ''.jpeg'' \<or> includes' u ''.gif'' \<or>
      includes' u ''.svg'' \<or> includes' u ''.webp'' \<or> includes' u ''.ico'')"

definition fontExtension :: "string \<Rightarrow> bool" where
  "fontExtension u =
     (includes' u ''.woff'' \<or> includes' u ''.woff2'' \<or> includes' u ''.ttf'' \<or>
      includes' u ''.otf'' \<or> includes' u ''.eot'')"

definition getRequestType :: "HarEntry \<Rightarrow> RequestType" where
  "getRequestType entry =
     (let mime = (case mimeType (content (response entry)) of
                    None \<Rightarrow> '''' | Some m \<Rightarrow> toLowerCase m);
          u = toLowerCase (url_q (request_e entry))
      in if initiatorType entry = Some ''xmlhttprequest'' then Xhr
         else if includes' mime ''json'' \<or> includes' mime ''xml'' then Fetch
         else if includes' mime ''html'' then Document
         else if includes' mime ''javascript'' \<or> endsWith u ''.js'' then Script
         else if includes' mime ''css'' \<or> endsWith u ''.css'' then Stylesheet
         else if includes' mime ''image'' \<or> imageExtension u then Image
         else if includes' mime ''font'' \<or> fontExtension u then Font
         else if includes' mime ''video'' \<or> includes' mime ''audio'' then Media
         else Other)"

text \<open>
  Every entry of the table has both fields, so the test
  \<^verbatim>\<open>"warning" in threshold && "critical" in threshold\<close> always passes. A type with no
  entry of its own (\<^verbatim>\<open>media\<close>) takes \<^verbatim>\<open>THRESHOLDS.other\<close>.
\<close>

definition getSeverity :: "rat \<Rightarrow> RequestType \<Rightarrow> SeverityLevel" where
  "getSeverity t ty =
     (let thresholdKey = (if ty = Xhr \<or> ty = Fetch then ''api'' else typeName ty);
          threshold = (case map_of THRESHOLDS thresholdKey of
                         Some th \<Rightarrow> th | None \<Rightarrow> THRESHOLDS_at ''other'')
      in if critical threshold \<le> t then Critical
         else if warning threshold \<le> t then Warning
         else Normal)"

text \<open>
  \<^verbatim>\<open>timings.dns && timings.dns > 0 ? timings.dns : 0\<close>: absent, zero and negative values
  all become 0.
\<close>

definition positiveOrZero :: "rat option \<Rightarrow> rat" where
  "positiveOrZero v = (case v of None \<Rightarrow> 0 | Some x \<Rightarrow> if x \<noteq> 0 \<and> 0 < x then x else 0)"

definition normalizeTimings :: "HarTimings \<Rightarrow> HarTimings" where
  "normalizeTimings tm =
     \<lparr>blocked = Some (positiveOrZero (blocked tm)),
      dns = Some (positiveOrZero (dns tm)),
      connect = Some (positiveOrZero (connect tm)),
      ssl = Some (positiveOrZero (ssl tm)),
      send = (if 0 < send tm then send tm else 0),
      wait = (if 0 < wait tm then wait tm else 0),
      receive = (if 0 < receive tm then receive tm else 0)\<rparr>"

text \<open>The issue messages, as the bytes of their UTF-8 text.\<close>

definition msg_dns :: string where
  "msg_dns = ''DNS '' @ [CHR 0xE6, CHR 0x9F, CHR 0xA5, CHR 0xE8, CHR 0xA9, CHR 0xA2,
     CHR 0xE9, CHR 0x81, CHR 0x8E, CHR 0xE6, CHR 0x85, CHR 0xA2] @ '' (''"

definition msg_connect :: string where
  "msg_connect = ''TCP '' @ [CHR 0xE9, CHR 0x80, CHR 0xA3, CHR 0xE7, CHR 0xB7, CHR 0x9A,
     CHR 0xE9, CHR 0x81, CHR 0x8E, CHR 0xE6, CHR 0x85, CHR 0xA2] @ '' (''"

definition msg_ssl :: string where
  "msg_ssl = ''SSL '' @ [CHR 0xE6, CHR 0x8F, CHR 0xA1, CHR 0xE6, CHR 0x89, CHR 0x8B,
     CHR 0xE9, CHR 0x81, CHR 0x8E, CHR 0xE6, CHR 0x85, CHR 0xA2] @ '' (''"

definition msg_ttfb :: string where
  "msg_ttfb = [CHR 0xE4, CHR 0xBC, CHR 0xBA, CHR 0xE6, CHR 0x9C, CHR 0x8D, CHR 0xE5, CHR 0x99,
     CHR 0xA8, CHR 0xE5, CHR 0x9B, CHR 0x9E, CHR 0xE6, CHR 0x87, CHR 0x89, CHR 0xE9, CHR 0x81,
     CHR 0x8E, CHR 0xE6, CHR 0x85, CHR 0xA2] @ '' TTFB (''"

definition msg_download :: string where
  "msg_download = [CHR 0xE4, CHR 0xB8, CHR 0x8B, CHR 0xE8, CHR 0xBC, CHR 0x89, CHR 0xE6,
     CHR 0x99, CHR 0x82, CHR 0xE9, CHR 0x96, CHR 0x93, CHR 0xE9, CHR 0x81, CHR 0x8E, CHR 0xE9,
     CHR 0x95, CHR 0xB7] @ '' (''"

definition msg_blocked :: string where
  "msg_blocked = [CHR 0xE8, CHR 0xAB, CHR 0x8B, CHR 0xE6, CHR 0xB1, CHR 0x82, CHR 0xE8,
     CHR 0xA2, CHR 0xAB, CHR 0xE9, CHR 0x98, CHR 0xBB, CHR 0xE5, CHR 0xA1, CHR 0x9E] @ '' (''"

definition issueText :: "string \<Rightarrow> rat \<Rightarrow> string" where
  "issueText m v = m @ numberToString (Math_round v) @ ''ms)''"

text \<open>
  \<^verbatim>\<open>if (timings.dns && timings.dns >= 100) issues.push(...)\<close>: an absent or zero
  value is falsy and raises no issue.
\<close>

definition phaseIssue :: "rat option \<Rightarrow> (rat \<Rightarrow> bool) \<Rightarrow> string \<Rightarrow> string list" where
  "phaseIssue v slow m =
     (case v of
        None \<Rightarrow> []
      | Some x \<Rightarrow> if x \<noteq> 0 \<and> slow x then [issueText m x] else [])"

definition analyzeRequestIssues :: "HarTimings \<Rightarrow> string list" where
  "analyzeRequestIssues tm =
     phaseIssue (dns tm) (\<lambda>x. warning (THRESHOLDS_at ''dns'') \<le> x) msg_dns @
     phaseIssue (connect tm) (\<lambda>x. warning (THRESHOLDS_at ''connect'') \<le> x) msg_connect @
     phaseIssue (ssl tm) (\<lambda>x. warning (THRESHOLDS_at ''ssl'') \<le> x) msg_ssl @
     (if warning (THRESHOLDS_at ''ttfb'') \<le> wait tm
      then [issueText msg_ttfb (wait tm)] else []) @
     (if warning (THRESHOLDS_at ''download'') \<le> receive tm
      then [issueText msg_download (receive tm)] else []) @
     phaseIssue (blocked tm) (\<lambda>x. 100 < x) msg_blocked"

definition categorizeIssue :: "string \<Rightarrow> IssueType" where
  "categorizeIssue issue =
     (if includes' issue ''DNS'' then slow_dns
      else if includes' issue ''TCP'' then slow_connect
      else if includes' issue ''SSL'' then slow_ssl
      else if includes' issue ''TTFB'' then slow_ttfb
      else if includes' issue [CHR 0xE4, CHR 0xB8, CHR 0x8B, CHR 0xE8, CHR 0xBC, CHR 0x89]
        then slow_download
      else if includes' issue [CHR 0xE9, CHR 0x98, CHR 0xBB, CHR 0xE5, CHR 0xA1, CHR 0x9E]
        then blocking
      else large_payload)"

text \<open>The body of \<^verbatim>\<open>entries.map((entry, index) => ...)\<close> in \<^verbatim>\<open>parseHarFile\<close>.\<close>

definition parseEntry :: "string \<Rightarrow> rat \<Rightarrow> HarEntry \<Rightarrow> nat \<Rightarrow> ParsedRequest" where
  "parseEntry regionName baseTime entry index =
     (let ty = getRequestType entry;
          t = time_e entry;
          sev = getSeverity t ty;
          tm = normalizeTimings (timings_e entry)
      in \<lparr>id' = regionName @ ''-'' @ numberToString (int index),
          url = url_q (request_e entry),
          method_r = method_q (request_e entry),
          status = status_p (response entry),
          type' = ty,
          size' = (if 0 < bodySize (response entry) then bodySize (response entry)
                   else size_c (content (response entry))),
          time = t,
          timings = tm,
          startTime = startedDateTime entry - baseTime,
          severity = sev,
          issues = analyzeRequestIssues tm\<rparr>)"

definition requestIssues :: "ParsedRequest \<Rightarrow> AnalysisIssue list" where
  "requestIssues r =
     map (\<lambda>issue. \<lparr>type_i = categorizeIssue issue, severity_i = severity r, message = issue,
                    url_i = url r, value_i = time r, threshold_i = 0\<rparr>) (issues r)"

datatype error = Error string | TypeError

text \<open>The message of the error \<^verbatim>\<open>parseHarFile\<close> throws for a capture with no entries.\<close>

definition msg_no_entries :: string where
  "msg_no_entries = ''HAR '' @ [CHR 0xE6, CHR 0xAA, CHR 0x94, CHR 0xE6, CHR 0xA1, CHR 0x88,
     CHR 0xE4, CHR 0xB8, CHR 0xAD, CHR 0xE6, CHR 0xB2, CHR 0x92, CHR 0xE6, CHR 0x9C, CHR 0x89,
     CHR 0xE8, CHR 0xAB, CHR 0x8B, CHR 0xE6, CHR 0xB1, CHR 0x82, CHR 0xE8, CHR 0xA8, CHR 0x98,
     CHR 0xE9, CHR 0x8C, CHR 0x84]"

text \<open>
  \<^verbatim>\<open>parseHarFile\<close> after \<^verbatim>\<open>JSON.parse\<close>: the argument is the parsed document. The
  \<^verbatim>\<open>throw\<close> is the \<open>Inl\<close> result.
\<close>

definition parseHarFile :: "HarFile \<Rightarrow> string \<Rightarrow> string \<Rightarrow> error + RegionData" where
  "parseHarFile har regionName sourceFile =
     (case entries (log har) of
        None \<Rightarrow> Inl (Error msg_no_entries)
      | Some [] \<Rightarrow> Inl (Error msg_no_entries)
      | Some (e0 # es) \<Rightarrow>
          (let baseTime = startedDateTime e0;
               rs = map (\<lambda>(entry, index). parseEntry regionName baseTime entry index)
                      (zip (e0 # es) [0 ..< length (e0 # es)])
           in Inr \<lparr>name = regionName,
                   fileName = sourceFile,
                   requests = rs,
                   totalTime = Math_max (map (\<lambda>r. startTime r + time r) rs),
                   totalSize = fold (\<lambda>r sum. sum + (if 0 < size' r then size' r else 0)) rs 0,
                   requestCount = length rs,
                   slowRequests = length (filter (\<lambda>r. severity r \<noteq> Normal) rs),
                   issues_r = concat (map requestIssues (filter (\<lambda>r. issues r \<noteq> []) rs))\<rparr>))"

section \<open>lib/analyzer: the cross-region comparator\<close>

text \<open>
  \<^verbatim>\<open>new URL(url)\<close> is the platform's URL parser; it is a parameter of the model. It
  throws a \<^verbatim>\<open>TypeError\<close> for a string that is not a URL, and otherwise gives an object
  with the fields \<^verbatim>\<open>origin\<close> and \<^verbatim>\<open>pathname\<close> (among others).
\<close>

record URL =
  origin :: string
  pathname :: string

type_synonym url_parser = "string \<Rightarrow> error + URL"

text \<open>The \<^verbatim>\<open>try\<close> / \<^verbatim>\<open>catch\<close> of \<^verbatim>\<open>getBaseUrl\<close>: any error of the parser gives the input back.\<close>

definition getBaseUrl :: "url_parser \<Rightarrow> string \<Rightarrow> string" where
  "getBaseUrl newURL u =
     (case newURL u of
        Inr parsed \<Rightarrow> origin parsed @ pathname parsed
      | Inl e \<Rightarrow> u)"

record RegionTime =
  time_m :: rat
  timings_m :: HarTimings

record RegionResult =
  name_c :: string
  time_c :: rat
  timings_c :: HarTimings

record ComparisonResult =
  url_c :: string
  regions :: "RegionResult list"
  maxDiff :: rat
  slowestRegion :: string
  fastestRegion :: string

text \<open>
  A JavaScript \<^verbatim>\<open>Map\<close> iterates in insertion order, and setting a key it has keeps the
  key's place: an association list under \<^const>\<open>AList.update\<close>.
\<close>

type_synonym region_map = "(string \<times> RegionTime) list"
type_synonym url_map = "(string \<times> region_map) list"

text \<open>
  The body of the two nested loops that fill \<^verbatim>\<open>urlMap\<close>. The inner map is mutated in
  place in the source; here the changed inner map is stored back under its key.
\<close>

definition addRequest :: "url_parser \<Rightarrow> string \<Rightarrow> ParsedRequest \<Rightarrow> url_map \<Rightarrow> url_map" where
  "addRequest newURL regionName request urlMap =
     (let baseUrl = getBaseUrl newURL (url request);
          regionMap = (case map_of urlMap baseUrl of None \<Rightarrow> [] | Some m \<Rightarrow> m);
          entry = \<lparr>time_m = time request, timings_m = timings request\<rparr>
      in AList.update baseUrl
           (case map_of regionMap regionName of
              None \<Rightarrow> AList.update regionName entry regionMap
            | Some existing \<Rightarrow>
                if time_m existing < time request
                then AList.update regionName entry regionMap
                else regionMap)
           urlMap)"

definition buildUrlMap :: "url_parser \<Rightarrow> RegionData list \<Rightarrow> url_map" where
  "buildUrlMap newURL rgs =
     fold (\<lambda>region urlMap. fold (addRequest newURL (name region)) (requests region) urlMap)
       rgs []"

text \<open>The test \<^verbatim>\<open>maxDiff > 100 || maxDiff / minTime > 0.5\<close>.\<close>

definition significantDiff :: "rat \<Rightarrow> rat \<Rightarrow> bool" where
  "significantDiff diff minTime = (100 < diff \<or> js_gt (js_div diff minTime) (1 / 2))"

text \<open>
  \<^verbatim>\<open>regionResults.find((r) => r.time === t)!.name\<close>: reading \<^verbatim>\<open>name\<close> of
  \<^verbatim>\<open>undefined\<close> throws a \<^verbatim>\<open>TypeError\<close>.
\<close>

definition regionWithTime :: "rat \<Rightarrow> RegionResult list \<Rightarrow> error + string" where
  "regionWithTime t regionResults =
     (case find (\<lambda>r. time_c r = t) regionResults of
        None \<Rightarrow> Inl TypeError
      | Some r \<Rightarrow> Inr (name_c r))"

text \<open>\<^verbatim>\<open>Array.from(regionMap.entries()).map(([name, data]) => ...)\<close>\<close>

definition regionResultsOf :: "region_map \<Rightarrow> RegionResult list" where
  "regionResultsOf regionMap =
     map (\<lambda>(n, d). \<lparr>name_c = n, time_c = time_m d, timings_c = timings_m d\<rparr>) regionMap"

text \<open>
  The body of the loop over \<^verbatim>\<open>urlMap\<close>: \<open>Inr None\<close> when nothing is pushed. With no
  times at all (which the size test excludes) the source computes \<open>-Infinity - Infinity\<close>
  and a NaN ratio, and pushes nothing.
\<close>

definition compareUrl :: "string \<times> region_map \<Rightarrow> error + ComparisonResult option" where
  "compareUrl p =
     (let u = fst p; regionMap = snd p
      in if length regionMap < 2 then Inr None
         else
           let regionResults = regionResultsOf regionMap;
               times = map time_c regionResults
           in case (Math_max times, Math_min times) of
                (Finite maxTime, Finite minTime) \<Rightarrow>
                  if significantDiff (maxTime - minTime) minTime
                  then (case regionWithTime maxTime regionResults of
                          Inl e \<Rightarrow> Inl e
                        | Inr slowest \<Rightarrow>
                            (case regionWithTime minTime regionResults of
                               Inl e \<Rightarrow> Inl e
                             | Inr fastest \<Rightarrow>
                                 Inr (Some \<lparr>url_c = u, regions = regionResults,
                                            maxDiff = maxTime - minTime,
                                            slowestRegion = slowest,
                                            fastestRegion = fastest\<rparr>)))
                  else Inr None
              | _ \<Rightarrow> Inr None)"

fun collectComparisons :: "url_map \<Rightarrow> error + ComparisonResult list" where
  "collectComparisons [] = Inr []"
| "collectComparisons (p # ps) =
     (case compareUrl p of
        Inl e \<Rightarrow> Inl e
      | Inr pushed \<Rightarrow>
          (case collectComparisons ps of
             Inl e \<Rightarrow> Inl e
           | Inr cs \<Rightarrow> Inr (case pushed of None \<Rightarrow> cs | Some c \<Rightarrow> c # cs)))"

text \<open>
  \<^verbatim>\<open>comparisons.sort((a, b) => b.maxDiff - a.maxDiff)\<close>: a stable sort, largest
  difference first.
\<close>

definition compareRegions :: "url_parser \<Rightarrow> RegionData list \<Rightarrow> error + ComparisonResult list" where
  "compareRegions newURL rgs =
     (if length rgs < 2 then Inr []
      else case collectComparisons (buildUrlMap newURL rgs) of
             Inl e \<Rightarrow> Inl e
           | Inr comparisons \<Rightarrow> Inr (sort_key (\<lambda>c. - maxDiff c) comparisons))"

section \<open>lib/analyzer: the region recommendation\<close>

datatype Priority = High | Medium | Low

datatype Category = Dns | Connection | Server | Payload | Caching | Cdn

text \<open>
  \<^verbatim>\<open>description\<close> is the JSON text of an object; the model keeps the object that
  \<^verbatim>\<open>JSON.stringify\<close> is given.
\<close>

record RegionStats =
  region :: string
  slowCount :: nat
  avgDiff :: int
  totalComparisons :: nat

record RegionDetail =
  url_d :: string
  thisRegion :: int
  fastest :: int
  fastestRegion_d :: string
  diff :: int

datatype Evidence = RegionEvidence (stats: RegionStats) (details: "RegionDetail list")

record Recommendation =
  priority :: Priority
  category :: Category
  title :: string
  description :: Evidence
  affectedUrls :: "string list"
  affectedRegions :: "string list"

text \<open>
  The body of the loop over the comparisons:
  \<^verbatim>\<open>slowestCounts.set(comp.slowestRegion, (slowestCounts.get(comp.slowestRegion) || 0) + 1)\<close>.
\<close>

definition countStep :: "ComparisonResult \<Rightarrow> (string \<times> nat) list \<Rightarrow> (string \<times> nat) list" where
  "countStep cmp slowestCounts =
     AList.update (slowestRegion cmp)
       ((case map_of slowestCounts (slowestRegion cmp) of None \<Rightarrow> 0 | Some n \<Rightarrow> n) + 1)
       slowestCounts"

definition countSlowest :: "ComparisonResult list \<Rightarrow> (string \<times> nat) list" where
  "countSlowest comparisons = fold countStep comparisons []"

text \<open>\<^verbatim>\<open>c.regions.find((r) => r.name === n)?.time || 0\<close>\<close>

definition regionTimeOr0 :: "string \<Rightarrow> ComparisonResult \<Rightarrow> rat" where
  "regionTimeOr0 n c =
     (case find (\<lambda>r. name_c r = n) (regions c) of None \<Rightarrow> 0 | Some r \<Rightarrow> time_c r)"

definition regionTitle :: "string \<Rightarrow> nat \<Rightarrow> rat \<Rightarrow> string" where
  "regionTitle problematicRegion n avg =
     problematicRegion @ '' '' @
     [CHR 0xE5, CHR 0x9C, CHR 0xB0, CHR 0xE5, CHR 0x8D, CHR 0x80, CHR 0xE5, CHR 0x9C, CHR 0xA8] @
     '' '' @ numberToString (int n) @ '' '' @
     [CHR 0xE5, CHR 0x80, CHR 0x8B, CHR 0xE8, CHR 0xAB, CHR 0x8B, CHR 0xE6, CHR 0xB1, CHR 0x82,
      CHR 0xE4, CHR 0xB8, CHR 0xAD, CHR 0xE6, CHR 0x98, CHR 0x8E, CHR 0xE9, CHR 0xA1, CHR 0xAF,
      CHR 0xE8, CHR 0xBC, CHR 0x83, CHR 0xE6, CHR 0x85, CHR 0xA2, CHR 0xEF, CHR 0xBC, CHR 0x88,
      CHR 0xE5, CHR 0xB9, CHR 0xB3, CHR 0xE5, CHR 0x9D, CHR 0x87, CHR 0xE6, CHR 0x85, CHR 0xA2] @
     '' '' @ numberToString (Math_round avg) @ ''ms'' @ [CHR 0xEF, CHR 0xBC, CHR 0x89]"

text \<open>
  The last block of \<^verbatim>\<open>generateRecommendations\<close>, the only one that reads the comparisons
  and the only one that pushes a recommendation of category \<^verbatim>\<open>cdn\<close>: the list of what
  it pushes. The division is by the length of a list that holds at least three
  comparisons.
\<close>

definition regionRecommendation :: "ComparisonResult list \<Rightarrow> Recommendation list" where
  "regionRecommendation comparisons =
     (if 0 < length comparisons then
        (case sort_key (\<lambda>e. - int (snd e)) (countSlowest comparisons) of
           [] \<Rightarrow> []
         | (problematicRegion, n) # others \<Rightarrow>
             if 3 \<le> n then
               (let regionComparisons =
                      filter (\<lambda>c. slowestRegion c = problematicRegion) comparisons;
                    avg = fold (\<lambda>c sum. sum + maxDiff c) regionComparisons 0
                            / of_nat (length regionComparisons)
                in [\<lparr>priority = High,
                     category = Cdn,
                     title = regionTitle problematicRegion n avg,
                     description = RegionEvidence
                       \<lparr>region = problematicRegion, slowCount = n, avgDiff = Math_round avg,
                        totalComparisons = length comparisons\<rparr>
                       (map (\<lambda>c. \<lparr>url_d = url_c c,
                                   thisRegion = Math_round (regionTimeOr0 problematicRegion c),
                                   fastest = Math_round (regionTimeOr0 (fastestRegion c) c),
                                   fastestRegion_d = fastestRegion c,
                                   diff = Math_round (maxDiff c)\<rparr>)
                          (take 50 regionComparisons)),
                     affectedUrls = map url_c (take 50 regionComparisons),
                     affectedRegions = [problematicRegion]\<rparr>])
             else [])
      else [])"

section \<open>lib/uxTimelineAnalyzer: API chains\<close>

record UXThresholds =
  apiGapThreshold :: rat
  blockingTimeWarning :: rat
  blockingTimeCritical :: rat
  waitingPeriodMin :: rat

definition UX_THRESHOLDS :: UXThresholds where
  "UX_THRESHOLDS =
     \<lparr>apiGapThreshold = 50, blockingTimeWarning = 200, blockingTimeCritical = 500,
      waitingPeriodMin = 100\<rparr>"

record ApiChainNode =
  request :: ParsedRequest
  startTime_n :: rat
  endTime :: rat
  dependsOn :: "string option"

text \<open>\<^verbatim>\<open>bottleneck\<close> is \<^verbatim>\<open>undefined\<close> (\<open>None\<close>) for a chain of no nodes.\<close>

record ApiChain =
  id_ch :: string
  nodes :: "ApiChainNode list"
  totalDuration :: rat
  chainLength :: nat
  bottleneck :: "ApiChainNode option"

text \<open>The predicate of \<^verbatim>\<open>allApiRequests.find\<close> in \<^verbatim>\<open>buildChain\<close>.\<close>

definition follows :: "string set \<Rightarrow> rat \<Rightarrow> ParsedRequest \<Rightarrow> bool" where
  "follows visited currentEndTime r =
     (id' r \<notin> visited \<and> currentEndTime \<le> startTime r \<and>
      startTime r \<le> currentEndTime + apiGapThreshold UX_THRESHOLDS)"

text \<open>The node that the loop of \<^verbatim>\<open>buildChain\<close> pushes for the current request.\<close>

definition chainNode :: "ParsedRequest \<Rightarrow> string option \<Rightarrow> ApiChainNode" where
  "chainNode currentRequest prevId =
     \<lparr>request = currentRequest,
      startTime_n = startTime currentRequest,
      endTime = startTime currentRequest + time currentRequest,
      dependsOn = prevId\<rparr>"

text \<open>
  The \<^verbatim>\<open>while\<close> loop of \<^verbatim>\<open>buildChain\<close>, on the state it changes: the current request,
  \<^verbatim>\<open>prevId\<close>, the nodes and the shared set \<^verbatim>\<open>visited\<close>. Every round adds an
  identifier to \<^verbatim>\<open>visited\<close> that was not in it, and the next request is taken from
  the list, so the loop ends.
\<close>

function chainLoop ::
  "ParsedRequest list \<Rightarrow> ParsedRequest option \<Rightarrow> string option \<Rightarrow> ApiChainNode list \<Rightarrow>
   string set \<Rightarrow> ApiChainNode list \<times> string set" where
  "chainLoop allApiRequests None prevId ns visited = (ns, visited)"
| "chainLoop allApiRequests (Some currentRequest) prevId ns visited =
     (if id' currentRequest \<in> visited then (ns, visited)
      else chainLoop allApiRequests
             (find (follows (insert (id' currentRequest) visited)
                      (startTime currentRequest + time currentRequest))
                allApiRequests)
             (Some (id' currentRequest))
             (ns @ [chainNode currentRequest prevId])
             (insert (id' currentRequest) visited))"
  by pat_completeness auto
termination
proof (relation "measure (\<lambda>(allApiRequests, cur, prevId, ns, visited).
    card ((id' ` set allApiRequests \<union> id' ` set_option cur) - visited))")
  show "wf (measure (\<lambda>(allApiRequests, cur, prevId, ns, visited).
    card ((id' ` set allApiRequests \<union> id' ` set_option cur) - visited)))"
    by simp
next
  fix allApiRequests :: "ParsedRequest list" and currentRequest :: ParsedRequest
    and prevId :: "string option" and ns :: "ApiChainNode list" and visited :: "string set"
  assume unvisited: "id' currentRequest \<notin> visited"
  let ?next = "find (follows (insert (id' currentRequest) visited)
                      (startTime currentRequest + time currentRequest)) allApiRequests"
  have "set_option ?next \<subseteq> set allApiRequests"
    by (cases ?next) (auto simp: find_Some_iff)
  then have "(id' ` set allApiRequests \<union> id' ` set_option ?next)
      - insert (id' currentRequest) visited
    \<subset> (id' ` set allApiRequests \<union> id' ` set_option (Some currentRequest)) - visited"
    using unvisited by auto
  then have "card ((id' ` set allApiRequests \<union> id' ` set_option ?next)
      - insert (id' currentRequest) visited)
    < card ((id' ` set allApiRequests \<union> id' ` set_option (Some currentRequest)) - visited)"
    by (intro psubset_card_mono) auto
  then show "((allApiRequests, ?next, Some (id' currentRequest),
       ns @ [chainNode currentRequest prevId],
       insert (id' currentRequest) visited),
      (allApiRequests, Some currentRequest, prevId, ns, visited))
    \<in> measure (\<lambda>(allApiRequests, cur, prevId, ns, visited).
        card ((id' ` set allApiRequests \<union> id' ` set_option cur) - visited))"
    by simp
qed

declare chainLoop.simps [simp del]

text \<open>\<^verbatim>\<open>nodes.reduce(..., nodes[0])\<close>: the first of the slowest nodes.\<close>

definition slowestNode :: "ApiChainNode list \<Rightarrow> ApiChainNode option" where
  "slowestNode ns =
     (case ns of
        [] \<Rightarrow> None
      | n0 # rest \<Rightarrow>
          Some (fold (\<lambda>node slowest.
                        if time (request slowest) < time (request node) then node else slowest)
                  ns n0))"

text \<open>\<^verbatim>\<open>buildChain\<close> returns the chain; the set \<^verbatim>\<open>visited\<close> it has updated comes with it.\<close>

definition buildChain ::
  "ParsedRequest \<Rightarrow> ParsedRequest list \<Rightarrow> string set \<Rightarrow> ApiChain \<times> string set" where
  "buildChain startRequest allApiRequests visited =
     (let (ns, visited') = chainLoop allApiRequests (Some startRequest) None [] visited
      in (\<lparr>id_ch = ''chain-'' @ id' startRequest,
           nodes = ns,
           totalDuration = (if 0 < length ns then endTime (last ns) - startTime_n (hd ns) else 0),
           chainLength = length ns,
           bottleneck = slowestNode ns\<rparr>,
          visited'))"

text \<open>The body of the \<^verbatim>\<open>for\<close> loop of \<^verbatim>\<open>analyzeApiChains\<close>, on \<^verbatim>\<open>chains\<close> and \<^verbatim>\<open>visited\<close>.\<close>

definition walkStep ::
  "ParsedRequest list \<Rightarrow> ParsedRequest \<Rightarrow> ApiChain list \<times> string set \<Rightarrow>
   ApiChain list \<times> string set" where
  "walkStep apiRequests r st =
     (let chains = fst st; visited = snd st
      in if id' r \<in> visited then (chains, visited)
         else let (chain, visited') = buildChain r apiRequests visited
              in (if 1 < length (nodes chain) then chains @ [chain] else chains, visited'))"

definition apiRequestsOf :: "ParsedRequest list \<Rightarrow> ParsedRequest list" where
  "apiRequestsOf rs = sort_key startTime (filter (\<lambda>r. type' r = Xhr \<or> type' r = Fetch) rs)"

definition analyzeApiChains :: "ParsedRequest list \<Rightarrow> ApiChain list" where
  "analyzeApiChains rs =
     (let apiRequests = apiRequestsOf rs
      in if length apiRequests = 0 then []
         else sort_key (\<lambda>c. - totalDuration c)
                (fst (fold (walkStep apiRequests) apiRequests ([], {}))))"

section \<open>The threshold table as the specification words it\<close>



section \<open>Sample data\<close>

subsection \<open>Sample captures\<close>

definition sampleTimings :: "rat \<Rightarrow> HarTimings" where
  "sampleTimings w =
     \<lparr>blocked = Some (-1), dns = None, connect = Some 0, ssl = None,
      send = 1, wait = w, receive = 2\<rparr>"

definition sampleEntry :: "rat \<Rightarrow> rat \<Rightarrow> string \<Rightarrow> string \<Rightarrow> rat \<Rightarrow> HarEntry" where
  "sampleEntry started t u mime w =
     \<lparr>startedDateTime = started, time_e = t,
      request_e = \<lparr>method_q = ''GET'', url_q = u, headers = []\<rparr>,
      response = \<lparr>status_p = 200, content = \<lparr>size_c = 10, mimeType = Some mime\<rparr>,
                  bodySize = -1\<rparr>,
      timings_e = sampleTimings w\<rparr>"

definition sampleHar :: "HarEntry list \<Rightarrow> HarFile" where
  "sampleHar es = \<lparr>log = \<lparr>entries = Some es\<rparr>\<rparr>"

definition sampleRequest ::
  "string \<Rightarrow> string \<Rightarrow> RequestType \<Rightarrow> rat \<Rightarrow> rat \<Rightarrow> ParsedRequest" where
  "sampleRequest i u ty started t =
     \<lparr>id' = i, url = u, method_r = ''GET'', status = 200, type' = ty, size' = 10, time = t,
      timings = normalizeTimings (sampleTimings 0), startTime = started,
      severity = getSeverity t ty, issues = []\<rparr>"

definition sampleRegion :: "string \<Rightarrow> ParsedRequest list \<Rightarrow> RegionData" where
  "sampleRegion n rs =
     \<lparr>name = n, fileName = n @ ''.har'', requests = rs,
      totalTime = Math_max (map (\<lambda>r. startTime r + time r) rs),
      totalSize = fold (\<lambda>r sum. sum + (if 0 < size' r then size' r else 0)) rs 0,
      requestCount = length rs,
      slowRequests = length (filter (\<lambda>r. severity r \<noteq> Normal) rs),
      issues_r = []\<rparr>"

text \<open>
  The values of the URL parser at the strings the examples use; any other string it
  rejects, as the platform's parser does for the string \<open>''not a url''\<close>.
\<close>

definition sampleURL :: url_parser where
  "sampleURL u =
     (if u = ''https://a.test/api/data'' \<or> u = ''https://a.test/api/data?region=tw'' \<or>
         u = ''https://a.test/api/data?region=jp#top''
      then Inr \<lparr>origin = ''https://a.test'', pathname = ''/api/data''\<rparr>
      else if u = ''https://a.test/app.js?v=3''
      then Inr \<lparr>origin = ''https://a.test'', pathname = ''/app.js''\<rparr>
      else Inl TypeError)"

definition sampleComparison :: "string \<Rightarrow> string \<Rightarrow> rat \<Rightarrow> string \<Rightarrow> rat \<Rightarrow> ComparisonResult" where
  "sampleComparison u slow ts fast tf =
     \<lparr>url_c = u,
      regions = [\<lparr>name_c = fast, time_c = tf, timings_c = normalizeTimings (sampleTimings 0)\<rparr>,
                 \<lparr>name_c = slow, time_c = ts, timings_c = normalizeTimings (sampleTimings 0)\<rparr>],
      maxDiff = ts - tf, slowestRegion = slow, fastestRegion = fast\<rparr>"



definition sampleComparisons :: "ComparisonResult list" where
  "sampleComparisons =
     [sampleComparison ''https://a.test/a'' ''jp'' 900 ''tw'' 200,
      sampleComparison ''https://a.test/b'' ''tw'' 900 ''jp'' 200,
      sampleComparison ''https://a.test/c'' ''jp'' 500 ''tw'' 200,
      sampleComparison ''https://a.test/d'' ''jp'' 501 ''tw'' 200]"

text \<open>
  Four API calls and a script: \<open>r-4\<close> starts 20 ms after \<open>r-0\<close> ends, and \<open>r-2\<close>
  starts 10 ms after \<open>r-1\<close> ends.
\<close>

definition sampleApiLoad :: "ParsedRequest list" where
  "sampleApiLoad =
     [sampleRequest ''r-0'' ''https://a.test/api/a'' Xhr 0 100,
      sampleRequest ''r-1'' ''https://a.test/api/b'' Fetch 10 50,
      sampleRequest ''r-2'' ''https://a.test/api/c'' Xhr 70 30,
      sampleRequest ''r-3'' ''https://a.test/app.js'' Script 100 30,
      sampleRequest ''r-4'' ''https://a.test/api/d'' Xhr 120 30]"

section \<open>The comparison as the specification words it\<close>






section \<open>Chain construction as the specification words it\<close>

text \<open>
  A request \<open>q\<close> can follow \<open>r\<close> in a chain when it is not visited yet and starts
  within the closed window from the end of \<open>r\<close> to 50 ms later.
\<close>

definition candidate :: "string set \<Rightarrow> ParsedRequest \<Rightarrow> ParsedRequest \<Rightarrow> bool" where
  "candidate visited r q =
     (id' q \<notin> visited \<and> startTime r + time r \<le> startTime q \<and>
      startTime q \<le> startTime r + time r + 50)"

text \<open>
  The requests of a chain built greedily from an unvisited start over the API requests
  \<open>api\<close>, given the set visited before: each request after the start is a candidate
  to follow its predecessor and no candidate starts earlier than it, every request of
  the chain is visited from then on, and after the last request there is no candidate.
\<close>

fun greedyChain :: "ParsedRequest list \<Rightarrow> string set \<Rightarrow> ParsedRequest list \<Rightarrow> bool" where
  "greedyChain api visited [] = False"
| "greedyChain api visited [r] =
     (id' r \<notin> visited \<and> list_all (\<lambda>q. \<not> candidate (insert (id' r) visited) r q) api)"
| "greedyChain api visited (r # r' # rest) =
     (id' r \<notin> visited \<and> r' \<in> set api \<and> candidate (insert (id' r) visited) r r' \<and>
      list_all (\<lambda>q. candidate (insert (id' r) visited) r q \<longrightarrow> startTime r' \<le> startTime q) api \<and>
      greedyChain api (insert (id' r) visited) (r' # rest))"

section \<open>Notions used in the proofs\<close>

text \<open>The set \<^verbatim>\<open>visited\<close> when the walk of \<^verbatim>\<open>analyzeApiChains\<close> has passed \<open>pre\<close>.\<close>

definition visitedAfter :: "ParsedRequest list \<Rightarrow> ParsedRequest list \<Rightarrow> string set" where
  "visitedAfter api pre = snd (fold (walkStep api) pre ([], {}))"

text \<open>The nodes the loop of \<^verbatim>\<open>buildChain\<close> pushes for a sequence of requests.\<close>

fun linkNodes :: "string option \<Rightarrow> ParsedRequest list \<Rightarrow> ApiChainNode list" where
  "linkNodes prevId [] = []"
| "linkNodes prevId (r # rs) = chainNode r prevId # linkNodes (Some (id' r)) rs"

text \<open>The identifiers of the requests of a chain.\<close>

definition chainIds :: "ApiChain \<Rightarrow> string list" where
  "chainIds c = map (\<lambda>n. id' (request n)) (nodes c)"

text \<open>The number of comparisons in which a region is the slowest party.\<close>

definition slowestCount :: "string \<Rightarrow> ComparisonResult list \<Rightarrow> nat" where
  "slowestCount r comparisons = length (filter (\<lambda>c. slowestRegion c = r) comparisons)"

text \<open>The pairs of a canonical URL and the name of a region where a request has it.\<close>

definition observed :: "url_parser \<Rightarrow> RegionData list \<Rightarrow> (string \<times> string) set" where
  "observed newURL rgs =
     {(getBaseUrl newURL (url q), name rg) | rg q. rg \<in> set rgs \<and> q \<in> set (requests rg)}"

text \<open>
  The invariant of the loops that fill \<^verbatim>\<open>urlMap\<close>: the keys of every inner map are
  distinct, and each is a region where the URL was seen.
\<close>

definition url_map_inv :: "(string \<times> string) set \<Rightarrow> url_map \<Rightarrow> bool" where
  "url_map_inv S m =
     (\<forall>(u, rm) \<in> set m. distinct (map fst rm) \<and> (\<forall>n \<in> fst ` set rm. (u, n) \<in> S))"





section \<open>The parser: severity, classification, start offsets, total time\<close>



lemma parseEntry_fields:
  "type' (parseEntry rn b e i) = getRequestType e"
  "severity (parseEntry rn b e i) = getSeverity (time_e e) (getRequestType e)"
  "issues (parseEntry rn b e i) = analyzeRequestIssues (normalizeTimings (timings_e e))"
  "startTime (parseEntry rn b e i) = startedDateTime e - b"
  "time (parseEntry rn b e i) = time_e e"
  by (simp_all add: parseEntry_def Let_def)

lemma getRequestType_cong:
  assumes "mimeType (content (response e1)) = mimeType (content (response e2))"
    and "url_q (request_e e1) = url_q (request_e e2)"
    and "headers (request_e e1) = headers (request_e e2)"
  shows "getRequestType e1 = getRequestType e2"
  using assms by (simp add: getRequestType_def initiatorType_def)

text \<open>
  C8, as the code has it. The request type is a function of the MIME type, the URL and
  the headers, and the severity of the duration and the type: two entries that agree on
  MIME type, URL, duration and headers get the same type and severity, whatever their
  other fields, region, base time and index are. The issue list is a function of the
  timing breakdown: if the two entries also agree on it, they get the same issues.
\<close>

theorem classification_deterministic:
  assumes "mimeType (content (response e1)) = mimeType (content (response e2))"
    and "url_q (request_e e1) = url_q (request_e e2)"
    and "time_e e1 = time_e e2"
    and "headers (request_e e1) = headers (request_e e2)"
  shows "type' (parseEntry rn1 b1 e1 i1) = type' (parseEntry rn2 b2 e2 i2)
       \<and> severity (parseEntry rn1 b1 e1 i1) = severity (parseEntry rn2 b2 e2 i2)
       \<and> (timings_e e1 = timings_e e2 \<longrightarrow>
            issues (parseEntry rn1 b1 e1 i1) = issues (parseEntry rn2 b2 e2 i2))"
  using assms getRequestType_cong [of e1 e2] by (simp add: parseEntry_fields)

theorem classification_deterministic_witness:
  "type' (parseEntry ''tw'' 0 (sampleEntry 0 700 ''https://a.test/api'' ''application/json'' 600) 0)
     = type' (parseEntry ''jp'' 40 (sampleEntry 90 700 ''https://a.test/api'' ''application/json'' 600) 7)
   \<and> severity (parseEntry ''tw'' 0 (sampleEntry 0 700 ''https://a.test/api'' ''application/json'' 600) 0)
     = severity (parseEntry ''jp'' 40 (sampleEntry 90 700 ''https://a.test/api'' ''application/json'' 600) 7)
   \<and> issues (parseEntry ''tw'' 0 (sampleEntry 0 700 ''https://a.test/api'' ''application/json'' 600) 0)
     = issues (parseEntry ''jp'' 40 (sampleEntry 90 700 ''https://a.test/api'' ''application/json'' 600) 7)"
  using classification_deterministic [of
      "sampleEntry 0 700 ''https://a.test/api'' ''application/json'' 600"
      "sampleEntry 90 700 ''https://a.test/api'' ''application/json'' 600" "''tw''" 0 0 "''jp''" 40 7]
  by (simp add: sampleEntry_def)

text \<open>
  C8 as stated fails: two entries with the same MIME type, URL, duration and headers,
  whose wait phases are 600 ms and 5 ms, get different issue lists.
\<close>

theorem issues_not_determined_counterexample:
  "mimeType (content (response (sampleEntry 0 700 ''https://a.test/api'' ''application/json'' 600)))
     = mimeType (content (response (sampleEntry 0 700 ''https://a.test/api'' ''application/json'' 5)))
   \<and> url_q (request_e (sampleEntry 0 700 ''https://a.test/api'' ''application/json'' 600))
     = url_q (request_e (sampleEntry 0 700 ''https://a.test/api'' ''application/json'' 5))
   \<and> time_e (sampleEntry 0 700 ''https://a.test/api'' ''application/json'' 600)
     = time_e (sampleEntry 0 700 ''https://a.test/api'' ''application/json'' 5)
   \<and> headers (request_e (sampleEntry 0 700 ''https://a.test/api'' ''application/json'' 600))
     = headers (request_e (sampleEntry 0 700 ''https://a.test/api'' ''application/json'' 5))
   \<and> issues (parseEntry ''tw'' 0 (sampleEntry 0 700 ''https://a.test/api'' ''application/json'' 600) 0)
     \<noteq> issues (parseEntry ''tw'' 0 (sampleEntry 0 700 ''https://a.test/api'' ''application/json'' 5) 0)"
  by (simp add: sampleEntry_def sampleTimings_def parseEntry_fields analyzeRequestIssues_def
      normalizeTimings_def positiveOrZero_def phaseIssue_def THRESHOLDS_at_def THRESHOLDS_def)

lemma map_zip_index:
  assumes "length ns = length es"
  shows "map (\<lambda>(e, i). h e) (zip es ns) = map h es"
proof -
  have "map (\<lambda>(e, i). h e) (zip es ns) = map h (map fst (zip es ns))"
    by (simp add: case_prod_unfold)
  with assms show ?thesis by simp
qed

lemma parseHarFile_Inr:
  assumes "entries (log har) = Some es" and "es \<noteq> []"
  shows "parseHarFile har rn fn = Inr
    \<lparr>name = rn, fileName = fn,
     requests = map (\<lambda>(entry, index). parseEntry rn (startedDateTime (hd es)) entry index)
                  (zip es [0 ..< length es]),
     totalTime = Math_max (map (\<lambda>r. startTime r + time r)
        (map (\<lambda>(entry, index). parseEntry rn (startedDateTime (hd es)) entry index)
                  (zip es [0 ..< length es]))),
     totalSize = fold (\<lambda>r sum. sum + (if 0 < size' r then size' r else 0))
        (map (\<lambda>(entry, index). parseEntry rn (startedDateTime (hd es)) entry index)
                  (zip es [0 ..< length es])) 0,
     requestCount = length es,
     slowRequests = length (filter (\<lambda>r. severity r \<noteq> Normal)
        (map (\<lambda>(entry, index). parseEntry rn (startedDateTime (hd es)) entry index)
                  (zip es [0 ..< length es]))),
     issues_r = concat (map requestIssues (filter (\<lambda>r. issues r \<noteq> [])
        (map (\<lambda>(entry, index). parseEntry rn (startedDateTime (hd es)) entry index)
                  (zip es [0 ..< length es]))))\<rparr>"
proof (cases es)
  case Nil
  with assms show ?thesis by simp
next
  case (Cons e0 rest)
  with assms(1) show ?thesis
    by (simp add: parseHarFile_def Let_def del: upt_Suc)
qed

lemma parseHarFile_requests:
  assumes "parseHarFile har rn fn = Inr rd"
  shows "\<exists>es. entries (log har) = Some es \<and> es \<noteq> [] \<and>
     requests rd = map (\<lambda>(entry, index). parseEntry rn (startedDateTime (hd es)) entry index)
                  (zip es [0 ..< length es]) \<and>
     totalTime rd = Math_max (map (\<lambda>r. startTime r + time r) (requests rd))"
proof (cases "entries (log har)")
  case None
  with assms show ?thesis by (simp add: parseHarFile_def)
next
  case (Some es)
  show ?thesis
  proof (cases "es = []")
    case True
    with Some assms show ?thesis by (simp add: parseHarFile_def)
  next
    case False
    from parseHarFile_Inr [OF Some False, of rn fn] assms Some False
    show ?thesis by auto
  qed
qed

lemma startTime_requests:
  "map startTime (map (\<lambda>(entry, index). parseEntry rn b entry index) (zip es [0 ..< length es]))
     = map (\<lambda>e. startedDateTime e - b) es"
proof -
  have "map startTime (map (\<lambda>(entry, index). parseEntry rn b entry index) (zip es [0 ..< length es]))
     = map (\<lambda>(e, i). startedDateTime e - b) (zip es [0 ..< length es])"
    by (simp add: case_prod_unfold parseEntry_fields)
  also have "\<dots> = map (\<lambda>e. startedDateTime e - b) es"
    by (rule map_zip_index) simp
  finally show ?thesis .
qed

text \<open>
  C1, as the code has it. Every start offset is relative to the first entry of the
  document: the first request's offset is 0, and when no entry starts before the first
  one, every offset is at least 0 and the least offset is 0.
\<close>

theorem parseHarFile_startTime:
  assumes "parseHarFile har rn fn = Inr rd"
  shows "\<exists>es. entries (log har) = Some es \<and> es \<noteq> []
     \<and> map startTime (requests rd) = map (\<lambda>e. startedDateTime e - startedDateTime (hd es)) es
     \<and> startTime (hd (requests rd)) = 0
     \<and> ((\<forall>e \<in> set es. startedDateTime (hd es) \<le> startedDateTime e) \<longrightarrow>
          (\<forall>r \<in> set (requests rd). 0 \<le> startTime r) \<and> Min (set (map startTime (requests rd))) = 0)"
proof -
  from parseHarFile_requests [OF assms] obtain es where
    es: "entries (log har) = Some es" "es \<noteq> []"
    and rq: "requests rd = map (\<lambda>(entry, index). parseEntry rn (startedDateTime (hd es)) entry index)
                  (zip es [0 ..< length es])"
    by blast
  let ?b = "startedDateTime (hd es)"
  have st: "map startTime (requests rd) = map (\<lambda>e. startedDateTime e - ?b) es"
    unfolding rq by (rule startTime_requests)
  have ne: "requests rd \<noteq> []"
    using st es(2) by auto
  have "hd (map startTime (requests rd)) = hd (map (\<lambda>e. startedDateTime e - ?b) es)"
    by (simp only: st)
  then have first: "startTime (hd (requests rd)) = 0"
    using ne es(2) by (simp add: hd_map)
  have ordered: "(\<forall>r \<in> set (requests rd). 0 \<le> startTime r) \<and> Min (set (map startTime (requests rd))) = 0"
    if le: "\<forall>e \<in> set es. ?b \<le> startedDateTime e"
  proof -
    have "set (map startTime (requests rd)) = (\<lambda>e. startedDateTime e - ?b) ` set es"
      by (simp only: st set_map)
    then have img: "startTime ` set (requests rd) = (\<lambda>e. startedDateTime e - ?b) ` set es"
      by simp
    have nonneg: "\<forall>r \<in> set (requests rd). 0 \<le> startTime r"
    proof
      fix r assume "r \<in> set (requests rd)"
      then have "startTime r \<in> (\<lambda>e. startedDateTime e - ?b) ` set es"
        using img by blast
      then show "0 \<le> startTime r" using le by auto
    qed
    have "0 \<in> set (map startTime (requests rd))"
      using first ne by (metis hd_in_set image_eqI set_map)
    moreover have "\<forall>x \<in> set (map startTime (requests rd)). 0 \<le> x"
      using nonneg by auto
    ultimately have "Min (set (map startTime (requests rd))) = 0"
      by (intro Min_eqI) auto
    with nonneg show ?thesis by blast
  qed
  from es st first ordered show ?thesis by blast
qed

theorem parseHarFile_startTime_witness:
  "map startTime (requests (projr (parseHarFile
      (sampleHar [sampleEntry 500 20 ''https://a.test/'' ''text/html'' 5,
                  sampleEntry 620 700 ''https://a.test/api'' ''application/json'' 600])
      ''tw'' ''tw.har''))) = [0, 120]
   \<and> Min (set (map startTime (requests (projr (parseHarFile
      (sampleHar [sampleEntry 500 20 ''https://a.test/'' ''text/html'' 5,
                  sampleEntry 620 700 ''https://a.test/api'' ''application/json'' 600])
      ''tw'' ''tw.har''))))) = 0"
proof -
  let ?har = "sampleHar [sampleEntry 500 20 ''https://a.test/'' ''text/html'' 5,
                  sampleEntry 620 700 ''https://a.test/api'' ''application/json'' 600]"
  have eq: "parseHarFile ?har ''tw'' ''tw.har'' = Inr (projr (parseHarFile ?har ''tw'' ''tw.har''))"
    by (simp add: parseHarFile_def sampleHar_def Let_def)
  from parseHarFile_startTime [OF eq] show ?thesis
    by (auto simp add: sampleHar_def sampleEntry_def)
qed

text \<open>
  C1 as stated fails for a document whose first entry is not the earliest: the second
  request starts 500 ms before the first and gets the offset -500.
\<close>

theorem startTime_negative_counterexample:
  "parseHarFile (sampleHar [sampleEntry 1000 700 ''https://a.test/api'' ''application/json'' 600,
                  sampleEntry 500 20 ''https://a.test/'' ''text/html'' 5]) ''tw'' ''tw.har''
     = Inr (projr (parseHarFile (sampleHar [sampleEntry 1000 700 ''https://a.test/api'' ''application/json'' 600,
                  sampleEntry 500 20 ''https://a.test/'' ''text/html'' 5]) ''tw'' ''tw.har''))
   \<and> map startTime (requests (projr (parseHarFile
      (sampleHar [sampleEntry 1000 700 ''https://a.test/api'' ''application/json'' 600,
                  sampleEntry 500 20 ''https://a.test/'' ''text/html'' 5])
      ''tw'' ''tw.har''))) = [0, - 500]"
  by (simp add: parseHarFile_def sampleHar_def sampleEntry_def parseEntry_fields Let_def)

lemma Math_max_Max: "xs \<noteq> [] \<Longrightarrow> Math_max xs = Finite (Max (set xs))"
proof (cases xs)
  case (Cons y ys)
  then show ?thesis by (simp only: Math_max.simps Max.set_eq_fold)
qed simp

text \<open>
  C4. For every region summary that \<^verbatim>\<open>parseHarFile\<close> returns, \<open>totalTime\<close> is the
  greatest \<open>startTime + time\<close> of its requests, and 0 when the request list is empty.
  The request list of a returned summary is never empty, so the aggregate is never
  computed over no requests.
\<close>

theorem parseHarFile_totalTime:
  assumes "parseHarFile har rn fn = Inr rd"
  shows "totalTime rd =
           (if requests rd = [] then Finite 0
            else Finite (Max (set (map (\<lambda>r. startTime r + time r) (requests rd)))))
       \<and> requests rd \<noteq> []"
proof -
  from parseHarFile_requests [OF assms] obtain es where
    es: "es \<noteq> []"
    and rq: "requests rd = map (\<lambda>(entry, index). parseEntry rn (startedDateTime (hd es)) entry index)
                  (zip es [0 ..< length es])"
    and tt: "totalTime rd = Math_max (map (\<lambda>r. startTime r + time r) (requests rd))"
    by blast
  from rq es have ne: "requests rd \<noteq> []" by (cases es) (simp_all del: upt_Suc add: upt_conv_Cons)
  with tt show ?thesis by (simp add: Math_max_Max)
qed

theorem parseHarFile_totalTime_witness:
  "totalTime (projr (parseHarFile
      (sampleHar [sampleEntry 500 20 ''https://a.test/'' ''text/html'' 5,
                  sampleEntry 620 700 ''https://a.test/api'' ''application/json'' 600])
      ''tw'' ''tw.har'')) = Finite 820"
proof -
  let ?har = "sampleHar [sampleEntry 500 20 ''https://a.test/'' ''text/html'' 5,
                  sampleEntry 620 700 ''https://a.test/api'' ''application/json'' 600]"
  have eq: "parseHarFile ?har ''tw'' ''tw.har'' = Inr (projr (parseHarFile ?har ''tw'' ''tw.har''))"
    by (simp add: parseHarFile_def sampleHar_def Let_def)
  have rq: "map (\<lambda>r. startTime r + time r) (requests (projr (parseHarFile ?har ''tw'' ''tw.har''))) = [20, 820]"
    by (simp add: parseHarFile_def sampleHar_def sampleEntry_def parseEntry_fields Let_def)
  from parseHarFile_totalTime [OF eq] show ?thesis
    unfolding rq by simp
qed

text \<open>A capture with no entries is rejected with an error; no summary is built for it.\<close>

lemma parseHarFile_empty_rejected:
  "parseHarFile (sampleHar []) rn fn = Inl (Error msg_no_entries)"
  by (simp add: parseHarFile_def sampleHar_def)

section \<open>The comparator\<close>

text \<open>
  C9. \<^verbatim>\<open>getBaseUrl\<close> returns a string for every input and every behaviour of the URL
  parser: a string the parser rejects is its own key, unchanged, so two such strings
  have the same key only when they are equal; a string the parser accepts has the key
  origin plus path.
\<close>

theorem getBaseUrl_never_throws:
  "(\<forall>e. newURL u = Inl e \<longrightarrow> getBaseUrl newURL u = u)
   \<and> (\<forall>p. newURL u = Inr p \<longrightarrow> getBaseUrl newURL u = origin p @ pathname p)
   \<and> (\<forall>v e e'. newURL u = Inl e \<longrightarrow> newURL v = Inl e' \<longrightarrow>
         (getBaseUrl newURL u = getBaseUrl newURL v) = (u = v))"
  by (simp add: getBaseUrl_def)

theorem getBaseUrl_never_throws_witness:
  "getBaseUrl sampleURL ''not a url?x=1#frag'' = ''not a url?x=1#frag''
   \<and> getBaseUrl sampleURL ''https://a.test/api/data?region=jp#top'' = ''https://a.test/api/data''"
  using getBaseUrl_never_throws [of sampleURL "''not a url?x=1#frag''"]
    getBaseUrl_never_throws [of sampleURL "''https://a.test/api/data?region=jp#top''"]
  by (simp add: sampleURL_def)

lemma Math_min_Min: "xs \<noteq> [] \<Longrightarrow> Math_min xs = Finite (Min (set xs))"
proof (cases xs)
  case (Cons y ys)
  then show ?thesis by (simp only: Math_min.simps Min.set_eq_fold)
qed simp

lemma regionWithTime_found:
  assumes "t \<in> set (map time_c rs)"
  shows "\<exists>n. regionWithTime t rs = Inr n"
proof -
  from assms have "find (\<lambda>r. time_c r = t) rs \<noteq> None"
    by (auto simp: find_None_iff)
  then show ?thesis by (auto simp: regionWithTime_def)
qed

lemma compareUrl_cases:
  assumes "2 \<le> length (snd p)"
  defines "rs \<equiv> regionResultsOf (snd p)"
  defines "mx \<equiv> Max (set (map time_c rs))" and "mn \<equiv> Min (set (map time_c rs))"
  shows "compareUrl p =
     (if significantDiff (mx - mn) mn
      then Inr (Some \<lparr>url_c = fst p, regions = rs, maxDiff = mx - mn,
                      slowestRegion = projr (regionWithTime mx rs),
                      fastestRegion = projr (regionWithTime mn rs)\<rparr>)
      else Inr None)"
proof -
  have ne: "map time_c rs \<noteq> []"
    using assms(1) by (auto simp: rs_def regionResultsOf_def)
  have mx: "Math_max (map time_c rs) = Finite mx"
    unfolding mx_def by (rule Math_max_Max [OF ne])
  have mn: "Math_min (map time_c rs) = Finite mn"
    unfolding mn_def by (rule Math_min_Min [OF ne])
  have "mx \<in> set (map time_c rs)"
    unfolding mx_def using ne by (intro Max_in) auto
  then obtain s where s: "regionWithTime mx rs = Inr s"
    using regionWithTime_found by blast
  have "mn \<in> set (map time_c rs)"
    unfolding mn_def using ne by (intro Min_in) auto
  then obtain f where f: "regionWithTime mn rs = Inr f"
    using regionWithTime_found by blast
  have not_lt: "\<not> length (snd p) < 2" using assms(1) by simp
  show ?thesis
    unfolding compareUrl_def Let_def
    using not_lt mx mn s f
    by (simp add: rs_def [symmetric] regionResultsOf_def [symmetric])
qed

lemma compareUrl_short: "length (snd p) < 2 \<Longrightarrow> compareUrl p = Inr None"
  by (simp add: compareUrl_def Let_def)

lemma compareUrl_Inr: "\<exists>r. compareUrl p = Inr r"
proof (cases "length (snd p) < 2")
  case True
  then show ?thesis by (simp add: compareUrl_short)
next
  case False
  then have "2 \<le> length (snd p)" by simp
  from compareUrl_cases [OF this] show ?thesis by (auto split: if_splits)
qed

lemma compareUrl_Some:
  assumes "compareUrl p = Inr (Some c)"
  shows "2 \<le> length (snd p) \<and> url_c c = fst p \<and> regions c = regionResultsOf (snd p)
    \<and> maxDiff c = Max (set (map time_c (regions c))) - Min (set (map time_c (regions c)))
    \<and> significantDiff (maxDiff c) (Min (set (map time_c (regions c))))"
proof (cases "length (snd p) < 2")
  case True
  with assms show ?thesis by (simp add: compareUrl_short)
next
  case False
  then have two: "2 \<le> length (snd p)" by simp
  from compareUrl_cases [OF two] assms show ?thesis
    using two by (auto split: if_splits)
qed

lemma collectComparisons_Inr:
  "\<exists>cs. collectComparisons m = Inr cs \<and> (\<forall>c \<in> set cs. \<exists>p \<in> set m. compareUrl p = Inr (Some c))"
proof (induction m)
  case Nil
  show ?case by simp
next
  case (Cons p ps)
  from Cons.IH obtain cs where cs: "collectComparisons ps = Inr cs"
    and mem: "\<forall>c \<in> set cs. \<exists>p \<in> set ps. compareUrl p = Inr (Some c)" by blast
  obtain r where r: "compareUrl p = Inr r" using compareUrl_Inr by blast
  show ?case
  proof (cases r)
    case None
    with cs mem r show ?thesis by auto
  next
    case (Some c)
    with cs mem r show ?thesis by auto
  qed
qed

lemma set_update_subset: "set (AList.update k v al) \<subseteq> insert (k, v) (set al)"
  by (induction al) auto

lemma url_map_inv_mono: "url_map_inv S m \<Longrightarrow> S \<subseteq> S' \<Longrightarrow> url_map_inv S' m"
  unfolding url_map_inv_def by fast

lemma url_map_inv_update:
  assumes "url_map_inv S m" and "distinct (map fst rm)" and "\<forall>n \<in> fst ` set rm. (u, n) \<in> S"
  shows "url_map_inv S (AList.update u rm m)"
  using assms set_update_subset [of u rm m] unfolding url_map_inv_def by fast

lemma addRequest_inv:
  assumes "url_map_inv S m"
  shows "url_map_inv (insert (getBaseUrl newURL (url q), rn) S) (addRequest newURL rn q m)"
proof -
  let ?u = "getBaseUrl newURL (url q)"
  let ?S = "insert (?u, rn) S"
  let ?rm = "case map_of m ?u of None \<Rightarrow> [] | Some rm \<Rightarrow> rm"
  let ?entry = "\<lparr>time_m = time q, timings_m = timings q\<rparr>"
  have inv': "url_map_inv ?S m"
    using assms by (rule url_map_inv_mono) auto
  have rm: "distinct (map fst ?rm) \<and> (\<forall>n \<in> fst ` set ?rm. (?u, n) \<in> ?S)"
  proof (cases "map_of m ?u")
    case None
    then show ?thesis by simp
  next
    case (Some rm)
    then have "(?u, rm) \<in> set m" by (rule map_of_SomeD)
    with inv' Some show ?thesis unfolding url_map_inv_def by fastforce
  qed
  have upd: "distinct (map fst (AList.update rn ?entry ?rm))
      \<and> (\<forall>n \<in> fst ` set (AList.update rn ?entry ?rm). (?u, n) \<in> ?S)"
    using rm by (auto simp: distinct_update dom_update simp del: image_iff)
  have new: "distinct (map fst rm') \<and> (\<forall>n \<in> fst ` set rm'. (?u, n) \<in> ?S)"
    if "rm' = (case map_of ?rm rn of
              None \<Rightarrow> AList.update rn ?entry ?rm
            | Some existing \<Rightarrow>
                if time_m existing < time q then AList.update rn ?entry ?rm else ?rm)" for rm'
    using that rm upd by (auto split: option.splits if_splits)
  show ?thesis
    unfolding addRequest_def Let_def
    by (rule url_map_inv_update [OF inv']) (use new in blast)+
qed

lemma fold_addRequest_inv:
  assumes "url_map_inv S m"
  shows "url_map_inv (S \<union> (\<lambda>q. (getBaseUrl newURL (url q), rn)) ` set qs)
           (fold (addRequest newURL rn) qs m)"
  using assms
proof (induction qs arbitrary: S m)
  case Nil
  then show ?case by simp
next
  case (Cons q qs)
  from Cons.IH [OF addRequest_inv [OF Cons.prems, of newURL q rn]]
  have "url_map_inv (insert (getBaseUrl newURL (url q), rn) S \<union>
      (\<lambda>q. (getBaseUrl newURL (url q), rn)) ` set qs) (fold (addRequest newURL rn) (q # qs) m)"
    by simp
  then show ?case by (rule url_map_inv_mono) auto
qed

lemma fold_regions_inv:
  assumes "url_map_inv S m"
  shows "url_map_inv (S \<union> observed newURL rgs)
     (fold (\<lambda>region urlMap. fold (addRequest newURL (name region)) (requests region) urlMap) rgs m)"
  using assms
proof (induction rgs arbitrary: S m)
  case Nil
  then show ?case by (simp add: observed_def)
next
  case (Cons rg rgs)
  from Cons.IH [OF fold_addRequest_inv [OF Cons.prems, of newURL "name rg" "requests rg"]]
  have "url_map_inv
     (S \<union> (\<lambda>q. (getBaseUrl newURL (url q), name rg)) ` set (requests rg) \<union> observed newURL rgs)
     (fold (\<lambda>region urlMap. fold (addRequest newURL (name region)) (requests region) urlMap)
        (rg # rgs) m)"
    by simp
  then show ?case by (rule url_map_inv_mono) (auto simp: observed_def)
qed

lemma buildUrlMap_inv: "url_map_inv (observed newURL rgs) (buildUrlMap newURL rgs)"
proof -
  have "url_map_inv {} []" by (simp add: url_map_inv_def)
  from fold_regions_inv [OF this, of newURL rgs] show ?thesis
    by (simp add: buildUrlMap_def)
qed

lemma regionResultsOf_names: "map name_c (regionResultsOf rm) = map fst rm"
  by (simp add: regionResultsOf_def case_prod_unfold)

lemma finite_observed_names:
  "finite {n. \<exists>rg \<in> set rgs. name rg = n \<and> (\<exists>q \<in> set (requests rg). getBaseUrl newURL (url q) = u)}"
  by (rule finite_subset [of _ "name ` set rgs"]) auto

text \<open>
  C6. The comparator always returns a list, never an error; the list is empty when
  fewer than two regions are supplied; and every result has at least two region
  entries, under distinct region names, whose canonical URL was seen in at least two
  regions.
\<close>

theorem compareRegions_two_regions:
  "\<exists>cs. compareRegions newURL rgs = Inr cs
     \<and> (length rgs < 2 \<longrightarrow> cs = [])
     \<and> (\<forall>c \<in> set cs. 2 \<le> length (regions c) \<and> distinct (map name_c (regions c))
           \<and> 2 \<le> card {n. \<exists>rg \<in> set rgs. name rg = n \<and>
                  (\<exists>q \<in> set (requests rg). getBaseUrl newURL (url q) = url_c c)})"
proof (cases "length rgs < 2")
  case True
  then show ?thesis by (simp add: compareRegions_def)
next
  case False
  obtain cs where cs: "collectComparisons (buildUrlMap newURL rgs) = Inr cs"
    and mem: "\<forall>c \<in> set cs. \<exists>p \<in> set (buildUrlMap newURL rgs). compareUrl p = Inr (Some c)"
    using collectComparisons_Inr by blast
  have res: "compareRegions newURL rgs = Inr (sort_key (\<lambda>c. - maxDiff c) cs)"
    using False cs by (simp add: compareRegions_def)
  have "2 \<le> length (regions c) \<and> distinct (map name_c (regions c))
           \<and> 2 \<le> card {n. \<exists>rg \<in> set rgs. name rg = n \<and>
                  (\<exists>q \<in> set (requests rg). getBaseUrl newURL (url q) = url_c c)}"
    if "c \<in> set cs" for c
  proof -
    from mem that obtain p where p: "p \<in> set (buildUrlMap newURL rgs)"
      and c: "compareUrl p = Inr (Some c)" by blast
    from compareUrl_Some [OF c] have two: "2 \<le> length (snd p)"
      and u: "url_c c = fst p" and rs: "regions c = regionResultsOf (snd p)" by simp_all
    from buildUrlMap_inv [of newURL rgs] p
    have dist: "distinct (map fst (snd p))"
      and obs: "\<forall>n \<in> fst ` set (snd p). (fst p, n) \<in> observed newURL rgs"
      unfolding url_map_inv_def by (auto simp: case_prod_unfold)
    let ?N = "{n. \<exists>rg \<in> set rgs. name rg = n \<and>
                  (\<exists>q \<in> set (requests rg). getBaseUrl newURL (url q) = url_c c)}"
    have sub: "fst ` set (snd p) \<subseteq> ?N"
      using obs u unfolding observed_def by fastforce
    have "card (fst ` set (snd p)) = length (snd p)"
      using dist by (metis distinct_card length_map set_map)
    with two card_mono [OF finite_observed_names sub, of ] have "2 \<le> card ?N" by simp
    moreover have "length (regions c) = length (snd p)"
      by (simp add: rs regionResultsOf_def)
    moreover have "distinct (map name_c (regions c))"
      using dist by (simp add: rs regionResultsOf_names)
    ultimately show ?thesis using two by simp
  qed
  with res False show ?thesis by simp
qed

theorem compareRegions_two_regions_witness:
  "compareRegions sampleURL
     [sampleRegion ''tw'' [sampleRequest ''tw-0'' ''https://a.test/api/data?region=tw'' Fetch 0 200]]
     = Inr []
   \<and> map (\<lambda>c. map name_c (regions c)) (projr (compareRegions sampleURL
     [sampleRegion ''tw'' [sampleRequest ''tw-0'' ''https://a.test/api/data?region=tw'' Fetch 0 200,
                           sampleRequest ''tw-1'' ''https://a.test/app.js?v=3'' Script 10 900],
      sampleRegion ''jp'' [sampleRequest ''jp-0'' ''https://a.test/api/data?region=jp#top'' Fetch 0 900]]))
     = [[''tw'', ''jp'']]"
proof -
  have one: "compareRegions sampleURL
     [sampleRegion ''tw'' [sampleRequest ''tw-0'' ''https://a.test/api/data?region=tw'' Fetch 0 200]]
     = Inr []"
    using compareRegions_two_regions [of sampleURL
      "[sampleRegion ''tw'' [sampleRequest ''tw-0'' ''https://a.test/api/data?region=tw'' Fetch 0 200]]"]
    by auto
  have two: "map (\<lambda>c. map name_c (regions c)) (projr (compareRegions sampleURL
     [sampleRegion ''tw'' [sampleRequest ''tw-0'' ''https://a.test/api/data?region=tw'' Fetch 0 200,
                           sampleRequest ''tw-1'' ''https://a.test/app.js?v=3'' Script 10 900],
      sampleRegion ''jp'' [sampleRequest ''jp-0'' ''https://a.test/api/data?region=jp#top'' Fetch 0 900]]))
     = [[''tw'', ''jp'']]"
    by code_simp
  from one two show ?thesis by simp
qed


























section \<open>The region recommendation\<close>

lemma countSlowest_fold: "countSlowest cs = fold countStep cs []"
  by (simp add: countSlowest_def)

lemma fold_countStep_distinct:
  "distinct (map fst al) \<Longrightarrow> distinct (map fst (fold countStep cs al))"
  by (induction cs arbitrary: al) (simp_all add: countStep_def distinct_update)

lemma fold_countStep_map_of:
  "map_of (fold countStep cs al) r =
     (if slowestCount r cs = 0 then map_of al r
      else Some ((case map_of al r of None \<Rightarrow> 0 | Some n \<Rightarrow> n) + slowestCount r cs))"
proof (induction cs arbitrary: al)
  case Nil
  show ?case by (simp add: slowestCount_def)
next
  case (Cons c cs)
  have step: "map_of (countStep c al) r =
      (if slowestRegion c = r then Some ((case map_of al r of None \<Rightarrow> 0 | Some n \<Rightarrow> n) + 1)
       else map_of al r)"
    by (simp add: countStep_def update_conv')
  have cnt: "slowestCount r (c # cs) = (if slowestRegion c = r then 1 else 0) + slowestCount r cs"
    by (simp add: slowestCount_def)
  have "map_of (fold countStep (c # cs) al) r = map_of (fold countStep cs (countStep c al)) r"
    by simp
  also have "\<dots> = (if slowestCount r cs = 0 then map_of (countStep c al) r
      else Some ((case map_of (countStep c al) r of None \<Rightarrow> 0 | Some n \<Rightarrow> n) + slowestCount r cs))"
    by (rule Cons.IH)
  also have "\<dots> = (if slowestCount r (c # cs) = 0 then map_of al r
      else Some ((case map_of al r of None \<Rightarrow> 0 | Some n \<Rightarrow> n) + slowestCount r (c # cs)))"
    unfolding step cnt by (simp split: option.splits)
  finally show ?case .
qed

lemma countSlowest_map_of:
  "map_of (countSlowest cs) r = (if slowestCount r cs = 0 then None else Some (slowestCount r cs))"
  by (simp add: countSlowest_fold fold_countStep_map_of)

lemma countSlowest_distinct: "distinct (map fst (countSlowest cs))"
  by (simp add: countSlowest_fold fold_countStep_distinct)

lemma countSlowest_mem:
  "((r, n) \<in> set (countSlowest cs)) = (n = slowestCount r cs \<and> 0 < n)"
proof -
  have "((r, n) \<in> set (countSlowest cs)) = (map_of (countSlowest cs) r = Some n)"
    using countSlowest_distinct by (metis map_of_is_SomeI map_of_SomeD)
  then show ?thesis by (auto simp: countSlowest_map_of)
qed

lemma sorted_head_greatest:
  assumes "sort_key (\<lambda>e. - int (snd e)) al = (r, n) # others"
  shows "(r, n) \<in> set al \<and> (\<forall>e \<in> set al. snd e \<le> n)"
proof -
  have set_eq: "set ((r, n) # others) = set al"
    using assms by (metis set_sort)
  have "sorted (map (\<lambda>e. - int (snd e)) ((r, n) # others))"
    using assms by (metis sorted_sort_key)
  then have "\<forall>e \<in> set others. - int n \<le> - int (snd e)"
    by simp
  then have "\<forall>e \<in> set ((r, n) # others). snd e \<le> n"
    by auto
  with set_eq show ?thesis by auto
qed

lemma fold_sum: "fold (\<lambda>c sum. sum + f c) xs (a :: rat) = a + sum_list (map f xs)"
  by (induction xs arbitrary: a) (simp_all add: add.assoc)

lemma regionRecommendation_empty:
  assumes "\<forall>r. slowestCount r cs < 3"
  shows "regionRecommendation cs = []"
proof (cases "sort_key (\<lambda>e. - int (snd e)) (countSlowest cs)")
  case Nil
  then show ?thesis by (simp add: regionRecommendation_def)
next
  case (Cons e others)
  obtain r n where e: "e = (r, n)" by (cases e)
  from sorted_head_greatest [OF Cons [unfolded e]] have "(r, n) \<in> set (countSlowest cs)" by simp
  then have "n = slowestCount r cs" by (simp add: countSlowest_mem)
  with assms have "\<not> 3 \<le> n" by (simp add: not_le)
  with Cons e show ?thesis by (simp add: regionRecommendation_def)
qed

lemma regionRecommendation_emitted:
  assumes "3 \<le> slowestCount r0 cs"
  shows "\<exists>r rec. regionRecommendation cs = [rec]
     \<and> priority rec = High \<and> category rec = Cdn \<and> affectedRegions rec = [r]
     \<and> region (stats (description rec)) = r
     \<and> slowCount (stats (description rec)) = slowestCount r cs
     \<and> 3 \<le> slowestCount r cs
     \<and> (\<forall>r'. slowestCount r' cs \<le> slowestCount r cs)
     \<and> avgDiff (stats (description rec)) =
         Math_round (sum_list (map maxDiff (filter (\<lambda>c. slowestRegion c = r) cs))
                       / of_nat (slowestCount r cs))"
proof -
  have mem0: "(r0, slowestCount r0 cs) \<in> set (countSlowest cs)"
    using assms by (simp add: countSlowest_mem)
  have ne: "0 < length cs"
    using assms by (auto simp: slowestCount_def)
  have "sort_key (\<lambda>e. - int (snd e)) (countSlowest cs) \<noteq> []"
    using mem0 by (metis empty_iff empty_set set_sort)
  then obtain r n others where
    srt: "sort_key (\<lambda>e. - int (snd e)) (countSlowest cs) = (r, n) # others"
    by (cases "sort_key (\<lambda>e. - int (snd e)) (countSlowest cs)") auto
  from sorted_head_greatest [OF srt]
  have mem: "(r, n) \<in> set (countSlowest cs)"
    and top: "\<forall>e \<in> set (countSlowest cs). snd e \<le> n" by simp_all
  from mem have n: "n = slowestCount r cs" by (simp add: countSlowest_mem)
  from top mem0 have "slowestCount r0 cs \<le> n" by fastforce
  with assms have three: "3 \<le> n" by simp
  have greatest: "slowestCount r' cs \<le> slowestCount r cs" for r'
  proof (cases "slowestCount r' cs = 0")
    case True
    then show ?thesis by simp
  next
    case False
    then have "(r', slowestCount r' cs) \<in> set (countSlowest cs)"
      by (simp add: countSlowest_mem)
    with top n show ?thesis by fastforce
  qed
  let ?rc = "filter (\<lambda>c. slowestRegion c = r) cs"
  have len: "length ?rc = slowestCount r cs" by (simp add: slowestCount_def)
  have avg: "fold (\<lambda>c sum. sum + maxDiff c) ?rc 0 / of_nat (length ?rc)
      = sum_list (map maxDiff ?rc) / of_nat (slowestCount r cs)"
    by (simp only: fold_sum len) simp
  show ?thesis
    using ne srt three n greatest avg
    by (simp add: regionRecommendation_def Let_def)
qed

text \<open>
  C7. The last block of the synthesizer pushes at most one recommendation, and one
  exactly when some region is the slowest party of at least 3 comparisons. Its region
  is then slowest in at least 3 comparisons and in no fewer than any other region; its
  priority is high, its category cdn, and its statistics carry the number of
  comparisons in which the region is slowest and the rounded mean of their spreads.
\<close>

theorem regionRecommendation_most_frequent:
  "length (regionRecommendation cs) \<le> 1
   \<and> (regionRecommendation cs \<noteq> []) = (\<exists>r. 3 \<le> slowestCount r cs)
   \<and> (\<forall>rec \<in> set (regionRecommendation cs).
         priority rec = High \<and> category rec = Cdn
         \<and> affectedRegions rec = [region (stats (description rec))]
         \<and> slowCount (stats (description rec))
             = slowestCount (region (stats (description rec))) cs
         \<and> 3 \<le> slowCount (stats (description rec))
         \<and> (\<forall>r. slowestCount r cs \<le> slowCount (stats (description rec)))
         \<and> avgDiff (stats (description rec))
             = Math_round
                 (sum_list (map maxDiff
                    (filter (\<lambda>c. slowestRegion c = region (stats (description rec))) cs))
                  / of_nat (slowCount (stats (description rec)))))"
proof (cases "\<exists>r. 3 \<le> slowestCount r cs")
  case True
  then obtain r0 where "3 \<le> slowestCount r0 cs" by blast
  from regionRecommendation_emitted [OF this] True show ?thesis
    by auto
next
  case False
  then have "\<forall>r. slowestCount r cs < 3" by (simp add: not_le)
  from regionRecommendation_empty [OF this] False show ?thesis by simp
qed

theorem regionRecommendation_most_frequent_witness:
  "map (\<lambda>rec. (priority rec, category rec, stats (description rec), affectedRegions rec))
     (regionRecommendation sampleComparisons)
     = [(High, Cdn, \<lparr>region = ''jp'', slowCount = 3, avgDiff = 434, totalComparisons = 4\<rparr>,
         [''jp''])]
   \<and> length (regionRecommendation sampleComparisons) \<le> 1"
proof -
  have ev: "map (\<lambda>rec. (priority rec, category rec, stats (description rec), affectedRegions rec))
     (regionRecommendation sampleComparisons)
     = [(High, Cdn, \<lparr>region = ''jp'', slowCount = 3, avgDiff = 434, totalComparisons = 4\<rparr>,
         [''jp''])]"
    by code_simp
  from regionRecommendation_most_frequent [of sampleComparisons] ev show ?thesis
    by simp
qed

section \<open>API chains\<close>

lemma follows_candidate:
  "follows V (startTime r + time r) q = candidate V r q"
  by (simp add: follows_def candidate_def UX_THRESHOLDS_def)

lemma find_sorted_earliest:
  assumes "sorted (map f xs)" and "find P xs = Some x"
  shows "x \<in> set xs \<and> P x \<and> (\<forall>y \<in> set xs. P y \<longrightarrow> f x \<le> f y)"
proof -
  from assms(2) obtain i where i: "i < length xs" "P (xs ! i)" "x = xs ! i"
    and before: "\<forall>j < i. \<not> P (xs ! j)"
    by (auto simp: find_Some_iff)
  have "f x \<le> f y" if "y \<in> set xs" "P y" for y
  proof -
    from that(1) obtain j where j: "j < length xs" "y = xs ! j"
      by (auto simp: in_set_conv_nth)
    with that(2) before have "i \<le> j" by (meson not_le)
    with assms(1) j(1) have "map f xs ! i \<le> map f xs ! j"
      by (intro sorted_nth_mono) simp_all
    with i j show ?thesis by simp
  qed
  with i show ?thesis by auto
qed

lemma request_linkNodes: "map request (linkNodes prev rs) = rs"
  by (induction rs arbitrary: prev) (simp_all add: chainNode_def)

lemma linkNodes_fields:
  "n \<in> set (linkNodes prev rs) \<Longrightarrow>
     startTime_n n = startTime (request n) \<and> endTime n = startTime (request n) + time (request n)"
  by (induction rs arbitrary: prev) (auto simp: chainNode_def)

lemma greedyChain_fresh:
  "greedyChain api V rs \<Longrightarrow> distinct (map id' rs) \<and> id' ` set rs \<inter> V = {}"
proof (induction api V rs rule: greedyChain.induct)
  case (1 api V)
  then show ?case by simp
next
  case (2 api V r)
  then show ?case by simp
next
  case (3 api V r r' rest)
  from "3.prems" have fresh: "id' r \<notin> V"
    and tail: "greedyChain api (insert (id' r) V) (r' # rest)" by simp_all
  from "3.IH" [OF tail] have "distinct (map id' (r' # rest))"
    and "id' ` set (r' # rest) \<inter> insert (id' r) V = {}" by simp_all
  with fresh show ?case by auto
qed

lemma chainLoop_result_opt:
  "\<forall>c. cur = Some c \<longrightarrow> id' c \<notin> V \<longrightarrow>
     (\<exists>rs. chainLoop api cur prev ns V
            = (ns @ linkNodes prev (c # rs), V \<union> id' ` set (c # rs))
          \<and> (sorted (map startTime api) \<longrightarrow> greedyChain api V (c # rs))
          \<and> distinct (map id' (c # rs)) \<and> id' ` set (c # rs) \<inter> V = {})"
proof (induction api cur prev ns V rule: chainLoop.induct)
  case (1 api prev ns V)
  show ?case by simp
next
  case (2 api c prev ns V)
  let ?V = "insert (id' c) V"
  let ?next = "find (follows ?V (startTime c + time c)) api"
  have "\<exists>rs. chainLoop api (Some c) prev ns V
            = (ns @ linkNodes prev (c # rs), V \<union> id' ` set (c # rs))
          \<and> (sorted (map startTime api) \<longrightarrow> greedyChain api V (c # rs))
          \<and> distinct (map id' (c # rs)) \<and> id' ` set (c # rs) \<inter> V = {}"
    if fresh: "id' c \<notin> V"
  proof -
    have unfold: "chainLoop api (Some c) prev ns V
        = chainLoop api ?next (Some (id' c)) (ns @ [chainNode c prev]) ?V"
      using fresh by (simp add: chainLoop.simps)
    show ?thesis
    proof (cases ?next)
      case None
      then have "\<forall>q \<in> set api. \<not> candidate ?V c q"
        by (simp add: find_None_iff follows_candidate)
      then have "greedyChain api V [c]"
        using fresh by (simp add: list_all_iff)
      moreover have "chainLoop api (Some c) prev ns V
          = (ns @ linkNodes prev [c], V \<union> id' ` set [c])"
        using unfold None by (simp add: chainLoop.simps)
      ultimately show ?thesis using fresh by (intro exI [of _ "[]"]) simp
    next
      case (Some r')
      then have "follows ?V (startTime c + time c) r'"
        by (auto simp: find_Some_iff)
      then have cand: "candidate ?V c r'" by (simp add: follows_candidate)
      then have fresh': "id' r' \<notin> ?V" by (simp add: candidate_def)
      from Some have mem: "r' \<in> set api" by (auto simp: find_Some_iff)
      from "2.IH" [OF fresh] Some fresh' obtain rs where
        res: "chainLoop api (Some r') (Some (id' c)) (ns @ [chainNode c prev]) ?V
            = ((ns @ [chainNode c prev]) @ linkNodes (Some (id' c)) (r' # rs),
               ?V \<union> id' ` set (r' # rs))"
        and gr: "sorted (map startTime api) \<longrightarrow> greedyChain api ?V (r' # rs)"
        and dist: "distinct (map id' (r' # rs))"
        and disj: "id' ` set (r' # rs) \<inter> ?V = {}"
        by auto
      have "chainLoop api (Some c) prev ns V
          = ((ns @ [chainNode c prev]) @ linkNodes (Some (id' c)) (r' # rs),
               ?V \<union> id' ` set (r' # rs))"
        using unfold Some res by (simp only:)
      also have "\<dots> = (ns @ linkNodes prev (c # r' # rs), V \<union> id' ` set (c # r' # rs))"
        by auto
      finally have eq: "chainLoop api (Some c) prev ns V
          = (ns @ linkNodes prev (c # r' # rs), V \<union> id' ` set (c # r' # rs))" .
      have greedy: "greedyChain api V (c # r' # rs)" if srt: "sorted (map startTime api)"
      proof -
        from find_sorted_earliest [OF srt Some]
        have "\<forall>q \<in> set api. candidate ?V c q \<longrightarrow> startTime r' \<le> startTime q"
          by (simp add: follows_candidate)
        with fresh mem cand gr srt show ?thesis
          by (simp add: list_all_iff)
      qed
      have "distinct (map id' (c # r' # rs))"
        using dist disj by auto
      moreover have "id' ` set (c # r' # rs) \<inter> V = {}"
        using disj fresh by auto
      ultimately show ?thesis using eq greedy by (intro exI [of _ "r' # rs"]) blast
    qed
  qed
  then show ?case by simp
qed

lemma chainLoop_result:
  assumes "id' c \<notin> V"
  shows "\<exists>rs. chainLoop api (Some c) prev ns V
            = (ns @ linkNodes prev (c # rs), V \<union> id' ` set (c # rs))
          \<and> (sorted (map startTime api) \<longrightarrow> greedyChain api V (c # rs))
          \<and> distinct (map id' (c # rs)) \<and> id' ` set (c # rs) \<inter> V = {}"
  using chainLoop_result_opt [of "Some c" V api prev ns] assms by simp

lemma buildChain_result:
  assumes "id' s \<notin> V"
  shows "\<exists>rs. nodes (fst (buildChain s api V)) = linkNodes None (s # rs)
          \<and> snd (buildChain s api V) = V \<union> id' ` set (s # rs)
          \<and> (sorted (map startTime api) \<longrightarrow> greedyChain api V (s # rs))
          \<and> distinct (map id' (s # rs)) \<and> id' ` set (s # rs) \<inter> V = {}
          \<and> totalDuration (fst (buildChain s api V))
              = endTime (last (nodes (fst (buildChain s api V))))
                - startTime_n (hd (nodes (fst (buildChain s api V))))"
proof -
  from chainLoop_result [OF assms, of api None "[]"] obtain rs where
    res: "chainLoop api (Some s) None [] V = (linkNodes None (s # rs), V \<union> id' ` set (s # rs))"
    and rest: "sorted (map startTime api) \<longrightarrow> greedyChain api V (s # rs)"
      "distinct (map id' (s # rs))" "id' ` set (s # rs) \<inter> V = {}"
    by auto
  have "nodes (fst (buildChain s api V)) = linkNodes None (s # rs)"
    and "snd (buildChain s api V) = V \<union> id' ` set (s # rs)"
    and "totalDuration (fst (buildChain s api V))
              = endTime (last (nodes (fst (buildChain s api V))))
                - startTime_n (hd (nodes (fst (buildChain s api V))))"
    unfolding buildChain_def res by simp_all
  with rest show ?thesis by blast
qed

lemma chainIds_linkNodes:
  "nodes c = linkNodes prev rs \<Longrightarrow> chainIds c = map id' rs"
proof -
  assume "nodes c = linkNodes prev rs"
  then have "map request (nodes c) = rs" by (simp add: request_linkNodes)
  then have "map id' (map request (nodes c)) = map id' rs" by simp
  then show ?thesis by (simp add: chainIds_def comp_def)
qed

lemma walkStep_visited:
  "id' x \<in> snd st \<Longrightarrow> walkStep api x st = st"
  by (simp add: walkStep_def Let_def)

lemma walkStep_fresh:
  "id' x \<notin> snd st \<Longrightarrow>
     walkStep api x st =
       (if 1 < length (nodes (fst (buildChain x api (snd st))))
        then fst st @ [fst (buildChain x api (snd st))] else fst st,
        snd (buildChain x api (snd st)))"
  by (simp add: walkStep_def Let_def case_prod_unfold)

lemma walk_built:
  assumes "c \<in> set (fst (fold (walkStep api) xs ([], {})))"
  shows "\<exists>pre start post. xs = pre @ start # post
      \<and> id' start \<notin> visitedAfter api pre
      \<and> c = fst (buildChain start api (visitedAfter api pre))
      \<and> 1 < length (nodes c)"
  using assms
proof (induction xs rule: rev_induct)
  case Nil
  then show ?case by simp
next
  case (snoc x xs)
  let ?st = "fold (walkStep api) xs ([], {})"
  have step: "fold (walkStep api) (xs @ [x]) ([], {}) = walkStep api x ?st" by simp
  have V: "snd ?st = visitedAfter api xs" by (simp add: visitedAfter_def)
  show ?case
  proof (cases "c \<in> set (fst ?st)")
    case True
    from snoc.IH [OF True] obtain pre start post where
      "xs = pre @ start # post" "id' start \<notin> visitedAfter api pre"
      "c = fst (buildChain start api (visitedAfter api pre))" "1 < length (nodes c)"
      by blast
    then have "xs @ [x] = pre @ start # (post @ [x])" by simp
    with \<open>id' start \<notin> visitedAfter api pre\<close>
      \<open>c = fst (buildChain start api (visitedAfter api pre))\<close> \<open>1 < length (nodes c)\<close>
    show ?thesis by blast
  next
    case False
    with snoc.prems step have new: "c \<in> set (fst (walkStep api x ?st))" by simp
    have fresh: "id' x \<notin> snd ?st"
    proof
      assume "id' x \<in> snd ?st"
      then have "walkStep api x ?st = ?st" by (rule walkStep_visited)
      with new False show False by simp
    qed
    from new False have c: "c = fst (buildChain x api (snd ?st))"
      and len: "1 < length (nodes c)"
      by (auto simp: walkStep_fresh [OF fresh] split: if_splits)
    from c V have c': "c = fst (buildChain x api (visitedAfter api xs))"
      by simp
    from fresh V have fresh': "id' x \<notin> visitedAfter api xs"
      by simp
    have "xs @ [x] = xs @ x # []" by simp
    with fresh' c' len show ?thesis by blast
  qed
qed

lemma walk_inv:
  "distinct (concat (map chainIds (fst (fold (walkStep api) xs ([], {})))))
   \<and> set (concat (map chainIds (fst (fold (walkStep api) xs ([], {})))))
        \<subseteq> snd (fold (walkStep api) xs ([], {}))
   \<and> id' ` set xs \<subseteq> snd (fold (walkStep api) xs ([], {}))"
proof (induction xs rule: rev_induct)
  case Nil
  show ?case by simp
next
  case (snoc x xs)
  let ?st = "fold (walkStep api) xs ([], {})"
  have step: "fold (walkStep api) (xs @ [x]) ([], {}) = walkStep api x ?st" by simp
  from snoc.IH have dist: "distinct (concat (map chainIds (fst ?st)))"
    and sub: "set (concat (map chainIds (fst ?st))) \<subseteq> snd ?st"
    and seen: "id' ` set xs \<subseteq> snd ?st" by simp_all
  show ?case
  proof (cases "id' x \<in> snd ?st")
    case True
    then have "walkStep api x ?st = ?st" by (rule walkStep_visited)
    with step dist sub seen True show ?thesis by auto
  next
    case False
    let ?b = "buildChain x api (snd ?st)"
    from buildChain_result [OF False, of api] obtain rs where
      nodes: "nodes (fst ?b) = linkNodes None (x # rs)"
      and V': "snd ?b = snd ?st \<union> id' ` set (x # rs)"
      and d: "distinct (map id' (x # rs))"
      and disj: "id' ` set (x # rs) \<inter> snd ?st = {}"
      by blast
    have ids: "chainIds (fst ?b) = map id' (x # rs)"
      using nodes by (rule chainIds_linkNodes)
    have snd_eq: "snd (walkStep api x ?st) = snd ?st \<union> id' ` set (x # rs)"
      by (simp add: walkStep_fresh [OF False] V')
    have fst_cases: "fst (walkStep api x ?st) = fst ?st @ [fst ?b]
        \<or> fst (walkStep api x ?st) = fst ?st"
      by (simp add: walkStep_fresh [OF False])
    have new_dist: "distinct (concat (map chainIds (fst ?st @ [fst ?b])))"
      using dist sub d disj unfolding ids [symmetric] by (auto simp: ids)
    have new_sub: "set (concat (map chainIds (fst ?st @ [fst ?b])))
        \<subseteq> snd ?st \<union> id' ` set (x # rs)"
      using sub by (auto simp: ids)
    from fst_cases show ?thesis
    proof
      assume "fst (walkStep api x ?st) = fst ?st @ [fst ?b]"
      with new_dist new_sub snd_eq seen step show ?thesis by auto
    next
      assume "fst (walkStep api x ?st) = fst ?st"
      with dist sub snd_eq seen step show ?thesis by auto
    qed
  qed
qed

lemma distinct_concat_insort:
  "distinct (concat (map f (insort_key g x xs)))
     = (distinct (f x) \<and> distinct (concat (map f xs))
        \<and> set (f x) \<inter> set (concat (map f xs)) = {})"
  by (induction xs) (auto simp: set_insort_key)

lemma distinct_concat_sort:
  "distinct (concat (map f (sort_key g xs))) = distinct (concat (map f xs))"
  by (induction xs) (simp_all add: distinct_concat_insort)

text \<open>
  C10. The chains reported for a request list are pairwise node-disjoint: over all
  reported chains together, no request identifier and no request occurs twice.
\<close>

theorem analyzeApiChains_disjoint:
  "distinct (concat (map chainIds (analyzeApiChains rs)))
   \<and> distinct (concat (map (\<lambda>c. map request (nodes c)) (analyzeApiChains rs)))"
proof -
  let ?api = "apiRequestsOf rs"
  let ?cs = "fst (fold (walkStep ?api) ?api ([], {}))"
  have cases: "analyzeApiChains rs = [] \<or> analyzeApiChains rs = sort_key (\<lambda>c. - totalDuration c) ?cs"
    by (simp add: analyzeApiChains_def Let_def)
  have "distinct (concat (map chainIds (sort_key (\<lambda>c. - totalDuration c) ?cs)))"
    using walk_inv [of ?api ?api] by (simp add: distinct_concat_sort)
  with cases have ids: "distinct (concat (map chainIds (analyzeApiChains rs)))"
    by auto
  have "concat (map chainIds cs) = map id' (concat (map (\<lambda>c. map request (nodes c)) cs))" for cs
    by (induction cs) (simp_all add: chainIds_def comp_def)
  with ids have "distinct (map id' (concat (map (\<lambda>c. map request (nodes c)) (analyzeApiChains rs))))"
    by simp
  then have "distinct (concat (map (\<lambda>c. map request (nodes c)) (analyzeApiChains rs)))"
    by (simp add: distinct_map)
  with ids show ?thesis by simp
qed

lemma walk_mono:
  "set (fst st) \<subseteq> set (fst (fold (walkStep api) xs st))"
proof (induction xs arbitrary: st)
  case Nil
  show ?case by simp
next
  case (Cons x xs)
  have "set (fst st) \<subseteq> set (fst (walkStep api x st))"
    by (cases "id' x \<in> snd st") (auto simp: walkStep_visited walkStep_fresh)
  also have "\<dots> \<subseteq> set (fst (fold (walkStep api) xs (walkStep api x st)))"
    by (rule Cons.IH)
  finally show ?case by simp
qed

lemma walk_reported:
  assumes "xs = pre @ start # post"
    and "id' start \<notin> visitedAfter api pre"
    and "1 < length (nodes (fst (buildChain start api (visitedAfter api pre))))"
  shows "fst (buildChain start api (visitedAfter api pre))
           \<in> set (fst (fold (walkStep api) xs ([], {})))"
proof -
  let ?st = "fold (walkStep api) pre ([], {})"
  let ?c = "fst (buildChain start api (visitedAfter api pre))"
  have V: "snd ?st = visitedAfter api pre" by (simp add: visitedAfter_def)
  from assms(2) V have fresh: "id' start \<notin> snd ?st" by simp
  have "?c \<in> set (fst (walkStep api start ?st))"
    using assms(3) by (simp add: walkStep_fresh [OF fresh] V)
  with walk_mono [of "walkStep api start ?st" api post]
  have "?c \<in> set (fst (fold (walkStep api) post (walkStep api start ?st)))"
    by blast
  then show ?thesis by (simp add: assms(1))
qed

lemma visitedAfter_snoc:
  "visitedAfter api (pre @ [x]) =
     (if id' x \<in> visitedAfter api pre then visitedAfter api pre
      else visitedAfter api pre
             \<union> set (chainIds (fst (buildChain x api (visitedAfter api pre)))))"
proof (cases "id' x \<in> visitedAfter api pre")
  case True
  then have "id' x \<in> snd (fold (walkStep api) pre ([], {}))"
    by (simp add: visitedAfter_def)
  then have "walkStep api x (fold (walkStep api) pre ([], {})) = fold (walkStep api) pre ([], {})"
    by (rule walkStep_visited)
  with True show ?thesis by (simp add: visitedAfter_def)
next
  case False
  let ?V = "visitedAfter api pre"
  from False have fresh: "id' x \<notin> snd (fold (walkStep api) pre ([], {}))"
    by (simp add: visitedAfter_def)
  from buildChain_result [OF False, of api] obtain rs where
    nodes: "nodes (fst (buildChain x api ?V)) = linkNodes None (x # rs)"
    and V': "snd (buildChain x api ?V) = ?V \<union> id' ` set (x # rs)"
    by blast
  have ids: "chainIds (fst (buildChain x api ?V)) = map id' (x # rs)"
    using nodes by (rule chainIds_linkNodes)
  have "visitedAfter api (pre @ [x]) = snd (buildChain x api ?V)"
    by (simp add: visitedAfter_def walkStep_fresh [OF fresh])
  with V' ids False show ?thesis by simp
qed

lemma chains_distinct:
  assumes "distinct (concat (map f cs))" and "\<forall>c \<in> set cs. f c \<noteq> []"
  shows "distinct cs"
  using assms
proof (induction cs)
  case Nil
  show ?case by simp
next
  case (Cons c cs)
  have "c \<notin> set cs"
  proof
    assume mem: "c \<in> set cs"
    from Cons.prems(2) obtain y where y: "y \<in> set (f c)" by (cases "f c") auto
    with mem have "y \<in> set (concat (map f cs))" by auto
    with y Cons.prems(1) show False by auto
  qed
  with Cons show ?case by simp
qed

text \<open>
  C5. The API requests are the xhr and fetch requests in order of start time, and the
  walk passes them in this order; the set visited grows by the requests of each chain
  built. From every request that is unvisited when the walk reaches it a chain is
  built greedily: each further request is an unvisited request that starts within the
  closed window of 50 ms after the end of its predecessor, no such request starts
  earlier, and after the last one there is none. Such a chain is reported when it has
  more than one node, and nothing else is reported: every reported chain is built this
  way and has more than one node, every node carries its request's start and end time,
  and the total duration is the last node's end minus the first node's start. No chain
  is reported twice, and the chains come in descending order of total duration.
\<close>

theorem analyzeApiChains_greedy:
  "sorted (map startTime (apiRequestsOf rs))
   \<and> set (apiRequestsOf rs) = {r \<in> set rs. type' r = Xhr \<or> type' r = Fetch}
   \<and> visitedAfter (apiRequestsOf rs) [] = {}
   \<and> (\<forall>pre x. visitedAfter (apiRequestsOf rs) (pre @ [x]) =
         (if id' x \<in> visitedAfter (apiRequestsOf rs) pre
          then visitedAfter (apiRequestsOf rs) pre
          else visitedAfter (apiRequestsOf rs) pre
                 \<union> set (chainIds (fst (buildChain x (apiRequestsOf rs)
                                           (visitedAfter (apiRequestsOf rs) pre))))))
   \<and> (\<forall>pre start post.
         apiRequestsOf rs = pre @ start # post
         \<and> id' start \<notin> visitedAfter (apiRequestsOf rs) pre \<longrightarrow>
           id' ` set pre \<subseteq> visitedAfter (apiRequestsOf rs) pre
           \<and> hd (map request (nodes (fst (buildChain start (apiRequestsOf rs)
                    (visitedAfter (apiRequestsOf rs) pre))))) = start
           \<and> greedyChain (apiRequestsOf rs) (visitedAfter (apiRequestsOf rs) pre)
               (map request (nodes (fst (buildChain start (apiRequestsOf rs)
                    (visitedAfter (apiRequestsOf rs) pre)))))
           \<and> (1 < length (nodes (fst (buildChain start (apiRequestsOf rs)
                    (visitedAfter (apiRequestsOf rs) pre))))
                \<longrightarrow> fst (buildChain start (apiRequestsOf rs)
                         (visitedAfter (apiRequestsOf rs) pre)) \<in> set (analyzeApiChains rs)))
   \<and> (\<forall>c \<in> set (analyzeApiChains rs).
         (\<exists>pre start post. apiRequestsOf rs = pre @ start # post
            \<and> id' ` set pre \<subseteq> visitedAfter (apiRequestsOf rs) pre
            \<and> id' start \<notin> visitedAfter (apiRequestsOf rs) pre
            \<and> c = fst (buildChain start (apiRequestsOf rs) (visitedAfter (apiRequestsOf rs) pre))
            \<and> hd (map request (nodes c)) = start
            \<and> greedyChain (apiRequestsOf rs) (visitedAfter (apiRequestsOf rs) pre)
                 (map request (nodes c)))
         \<and> 1 < length (nodes c)
         \<and> (\<forall>n \<in> set (nodes c). startTime_n n = startTime (request n)
               \<and> endTime n = startTime (request n) + time (request n))
         \<and> totalDuration c = endTime (last (nodes c)) - startTime_n (hd (nodes c)))
   \<and> distinct (analyzeApiChains rs)
   \<and> sorted (map (\<lambda>c. - totalDuration c) (analyzeApiChains rs))"
proof -
  let ?api = "apiRequestsOf rs"
  let ?V = "visitedAfter ?api"
  let ?cs = "fst (fold (walkStep ?api) ?api ([], {}))"
  have srt: "sorted (map startTime ?api)"
    by (simp add: apiRequestsOf_def)
  have set_api: "set ?api = {r \<in> set rs. type' r = Xhr \<or> type' r = Fetch}"
    by (auto simp: apiRequestsOf_def)
  have V0: "?V [] = {}" by (simp add: visitedAfter_def)
  have Vsnoc: "\<forall>pre x. ?V (pre @ [x]) =
         (if id' x \<in> ?V pre then ?V pre
          else ?V pre \<union> set (chainIds (fst (buildChain x ?api (?V pre)))))"
    using visitedAfter_snoc by blast
  have out: "analyzeApiChains rs = (if ?api = [] then [] else sort_key (\<lambda>c. - totalDuration c) ?cs)"
    by (simp add: analyzeApiChains_def Let_def)
  have built: "id' ` set pre \<subseteq> ?V pre
      \<and> hd (map request (nodes (fst (buildChain start ?api (?V pre))))) = start
      \<and> greedyChain ?api (?V pre) (map request (nodes (fst (buildChain start ?api (?V pre)))))
      \<and> (\<forall>n \<in> set (nodes (fst (buildChain start ?api (?V pre)))).
            startTime_n n = startTime (request n)
            \<and> endTime n = startTime (request n) + time (request n))
      \<and> totalDuration (fst (buildChain start ?api (?V pre)))
          = endTime (last (nodes (fst (buildChain start ?api (?V pre)))))
            - startTime_n (hd (nodes (fst (buildChain start ?api (?V pre)))))"
    if fresh: "id' start \<notin> ?V pre" for pre start
  proof -
    let ?c = "fst (buildChain start ?api (?V pre))"
    from buildChain_result [OF fresh, of ?api] srt obtain rs' where
      nodes: "nodes ?c = linkNodes None (start # rs')"
      and greedy: "greedyChain ?api (?V pre) (start # rs')"
      and total: "totalDuration ?c = endTime (last (nodes ?c)) - startTime_n (hd (nodes ?c))"
      by auto
    have reqs: "map request (nodes ?c) = start # rs'"
      by (simp only: nodes request_linkNodes)
    have fields: "\<forall>n \<in> set (nodes ?c). startTime_n n = startTime (request n)
            \<and> endTime n = startTime (request n) + time (request n)"
      unfolding nodes using linkNodes_fields by blast
    have seen: "id' ` set pre \<subseteq> ?V pre"
      using walk_inv [of ?api pre] by (simp add: visitedAfter_def)
    from seen greedy fields total show ?thesis unfolding reqs by simp
  qed
  have complete: "\<forall>pre start post.
         ?api = pre @ start # post \<and> id' start \<notin> ?V pre \<longrightarrow>
           id' ` set pre \<subseteq> ?V pre
           \<and> hd (map request (nodes (fst (buildChain start ?api (?V pre))))) = start
           \<and> greedyChain ?api (?V pre) (map request (nodes (fst (buildChain start ?api (?V pre)))))
           \<and> (1 < length (nodes (fst (buildChain start ?api (?V pre))))
                \<longrightarrow> fst (buildChain start ?api (?V pre)) \<in> set (analyzeApiChains rs))"
  proof (intro allI impI)
    fix pre start post
    assume a: "?api = pre @ start # post \<and> id' start \<notin> ?V pre"
    then have split: "?api = pre @ start # post" and fresh: "id' start \<notin> ?V pre" by blast+
    have rep: "fst (buildChain start ?api (?V pre)) \<in> set (analyzeApiChains rs)"
      if len: "1 < length (nodes (fst (buildChain start ?api (?V pre))))"
    proof -
      from walk_reported [OF split fresh len]
      have "fst (buildChain start ?api (?V pre)) \<in> set ?cs" .
      moreover from split have "?api \<noteq> []" by simp
      ultimately show ?thesis by (simp add: out)
    qed
    from built [OF fresh] rep
    show "id' ` set pre \<subseteq> ?V pre
           \<and> hd (map request (nodes (fst (buildChain start ?api (?V pre))))) = start
           \<and> greedyChain ?api (?V pre) (map request (nodes (fst (buildChain start ?api (?V pre)))))
           \<and> (1 < length (nodes (fst (buildChain start ?api (?V pre))))
                \<longrightarrow> fst (buildChain start ?api (?V pre)) \<in> set (analyzeApiChains rs))"
      by blast
  qed
  have sound: "\<forall>c \<in> set (analyzeApiChains rs).
         (\<exists>pre start post. ?api = pre @ start # post
            \<and> id' ` set pre \<subseteq> ?V pre
            \<and> id' start \<notin> ?V pre
            \<and> c = fst (buildChain start ?api (?V pre))
            \<and> hd (map request (nodes c)) = start
            \<and> greedyChain ?api (?V pre) (map request (nodes c)))
         \<and> 1 < length (nodes c)
         \<and> (\<forall>n \<in> set (nodes c). startTime_n n = startTime (request n)
               \<and> endTime n = startTime (request n) + time (request n))
         \<and> totalDuration c = endTime (last (nodes c)) - startTime_n (hd (nodes c))"
  proof
    fix c assume "c \<in> set (analyzeApiChains rs)"
    then have "c \<in> set ?cs" by (auto simp: out split: if_splits)
    from walk_built [OF this] obtain pre start post where
      split: "?api = pre @ start # post"
      and fresh: "id' start \<notin> ?V pre"
      and c: "c = fst (buildChain start ?api (?V pre))"
      and len: "1 < length (nodes c)"
      by blast
    from built [OF fresh] c have b: "id' ` set pre \<subseteq> ?V pre"
      "hd (map request (nodes c)) = start"
      "greedyChain ?api (?V pre) (map request (nodes c))"
      "\<forall>n \<in> set (nodes c). startTime_n n = startTime (request n)
               \<and> endTime n = startTime (request n) + time (request n)"
      "totalDuration c = endTime (last (nodes c)) - startTime_n (hd (nodes c))"
      by simp_all
    from split b(1) fresh c b(2) b(3)
    have "\<exists>pre start post. ?api = pre @ start # post
            \<and> id' ` set pre \<subseteq> ?V pre
            \<and> id' start \<notin> ?V pre
            \<and> c = fst (buildChain start ?api (?V pre))
            \<and> hd (map request (nodes c)) = start
            \<and> greedyChain ?api (?V pre) (map request (nodes c))"
      by blast
    with len b(4) b(5)
    show "(\<exists>pre start post. ?api = pre @ start # post
            \<and> id' ` set pre \<subseteq> ?V pre
            \<and> id' start \<notin> ?V pre
            \<and> c = fst (buildChain start ?api (?V pre))
            \<and> hd (map request (nodes c)) = start
            \<and> greedyChain ?api (?V pre) (map request (nodes c)))
         \<and> 1 < length (nodes c)
         \<and> (\<forall>n \<in> set (nodes c). startTime_n n = startTime (request n)
               \<and> endTime n = startTime (request n) + time (request n))
         \<and> totalDuration c = endTime (last (nodes c)) - startTime_n (hd (nodes c))"
      by blast
  qed
  have "distinct (concat (map chainIds ?cs))"
    using walk_inv [of ?api ?api] by simp
  moreover have "\<forall>c \<in> set ?cs. chainIds c \<noteq> []"
  proof
    fix c assume "c \<in> set ?cs"
    from walk_built [OF this] have "1 < length (nodes c)" by blast
    then show "chainIds c \<noteq> []" by (auto simp: chainIds_def)
  qed
  ultimately have "distinct ?cs" by (rule chains_distinct)
  then have dist: "distinct (analyzeApiChains rs)" by (simp add: out)
  have ord: "sorted (map (\<lambda>c. - totalDuration c) (analyzeApiChains rs))"
    by (simp add: out)
  from srt set_api V0 Vsnoc complete sound dist ord show ?thesis by blast
qed

theorem analyzeApiChains_greedy_witness:
  "map chainIds (analyzeApiChains sampleApiLoad) = [[''r-0'', ''r-4''], [''r-1'', ''r-2'']]
   \<and> fst (buildChain (sampleRequest ''r-0'' ''https://a.test/api/a'' Xhr 0 100)
           (apiRequestsOf sampleApiLoad) {}) \<in> set (analyzeApiChains sampleApiLoad)
   \<and> 1 < length (nodes (hd (analyzeApiChains sampleApiLoad)))
   \<and> totalDuration (hd (analyzeApiChains sampleApiLoad))
       = endTime (last (nodes (hd (analyzeApiChains sampleApiLoad))))
         - startTime_n (hd (nodes (hd (analyzeApiChains sampleApiLoad))))"
proof -
  let ?api = "apiRequestsOf sampleApiLoad"
  let ?r0 = "sampleRequest ''r-0'' ''https://a.test/api/a'' Xhr 0 100"
  let ?post = "[sampleRequest ''r-1'' ''https://a.test/api/b'' Fetch 10 50,
       sampleRequest ''r-2'' ''https://a.test/api/c'' Xhr 70 30,
       sampleRequest ''r-4'' ''https://a.test/api/d'' Xhr 120 30]"
  note T = analyzeApiChains_greedy [of sampleApiLoad]
  note V0 = T [THEN conjunct2, THEN conjunct2, THEN conjunct1]
  note complete = T [THEN conjunct2, THEN conjunct2, THEN conjunct2, THEN conjunct2,
      THEN conjunct1, rule_format, of "[]" ?r0 ?post]
  note sound = T [THEN conjunct2, THEN conjunct2, THEN conjunct2, THEN conjunct2,
      THEN conjunct2, THEN conjunct1, rule_format]
  have ev: "map chainIds (analyzeApiChains sampleApiLoad)
      = [[''r-0'', ''r-4''], [''r-1'', ''r-2'']]"
    by code_simp
  have split: "?api = [] @ ?r0 # ?post"
    by code_simp
  have fresh: "id' ?r0 \<notin> visitedAfter ?api []"
    by (simp only: V0) simp
  have len: "1 < length (nodes (fst (buildChain ?r0 ?api (visitedAfter ?api []))))"
    by (simp only: V0) code_simp
  from complete [OF conjI [OF split fresh]] len
  have "fst (buildChain ?r0 ?api (visitedAfter ?api [])) \<in> set (analyzeApiChains sampleApiLoad)"
    by (elim conjE) (erule mp)
  then have rep: "fst (buildChain ?r0 ?api {}) \<in> set (analyzeApiChains sampleApiLoad)"
    by (simp only: V0)
  from ev have "analyzeApiChains sampleApiLoad \<noteq> []" by auto
  then have mem: "hd (analyzeApiChains sampleApiLoad) \<in> set (analyzeApiChains sampleApiLoad)"
    by simp
  note s = sound [OF mem]
  note l = s [THEN conjunct2, THEN conjunct1]
  note t = s [THEN conjunct2, THEN conjunct2, THEN conjunct2]
  from l t
  show ?thesis using ev rep by (intro conjI)
qed

end
